theory Spec2Isabelle
  imports Complex_Main
begin

section \<open>A conservative mark-and-sweep collector: the data model\<close>

text \<open>
  The collector of \<^verbatim>\<open>gc.h\<close> manages one arena of \<^verbatim>\<open>GC_HEAP_SIZE\<close> bytes. Addresses and
  \<^verbatim>\<open>size_t\<close> values are natural numbers; the platform is LP64, so \<^verbatim>\<open>size_t\<close> arithmetic
  that can wrap is written \<open>mod 2 ^ 64\<close>, \<^verbatim>\<open>sizeof(gc_object_t)\<close> is 24 (a \<^verbatim>\<open>size_t\<close>, an
  \<^verbatim>\<open>int\<close> padded to 8 bytes, a pointer), \<^verbatim>\<open>sizeof(gc_free_block_t)\<close> is 16 and a
  pointer-sized word has 8 bytes. The null pointer is address 0.

  The two intrusive singly linked lists (\<^verbatim>\<open>gc_state.objects\<close> through \<^verbatim>\<open>gc_object.next\<close>,
  \<^verbatim>\<open>gc_state.free_list\<close> through \<^verbatim>\<open>gc_free_block.next\<close>) are the lists of their nodes, head
  first; a node is identified by its address. The payload bytes are the word memory
  \<open>mem\<close>, read and written at \<^verbatim>\<open>data + 8 * i\<close> as the source's \<^verbatim>\<open>uintptr_t*\<close> view does.
\<close>

type_synonym addr = nat
type_synonym size_t = nat

definition SIZE_MAX_plus_1 :: nat where
  "SIZE_MAX_plus_1 = 2 ^ 64"

definition GC_HEAP_SIZE :: nat where
  "GC_HEAP_SIZE = 1024 * 1024"

definition GC_ALIGNMENT :: nat where
  "GC_ALIGNMENT = 8"

definition sizeof_gc_object_t :: nat where
  "sizeof_gc_object_t = 24"

definition sizeof_gc_free_block_t :: nat where
  "sizeof_gc_free_block_t = 16"

definition sizeof_uintptr_t :: nat where
  "sizeof_uintptr_t = 8"

text \<open>\<^verbatim>\<open>struct gc_object\<close>: \<open>obj_at\<close> is the address of the header, \<open>obj_size\<close> the field
  \<^verbatim>\<open>size\<close>, \<open>marked\<close> the field \<^verbatim>\<open>marked\<close> (only ever assigned 0 or 1); \<^verbatim>\<open>next\<close> is the rest of
  the list.\<close>

record gc_object =
  obj_at :: addr
  obj_size :: size_t
  marked :: bool

text \<open>\<^verbatim>\<open>obj->data\<close>: the flexible array member starts right after the header.\<close>

definition data :: "gc_object \<Rightarrow> addr" where
  "data obj = obj_at obj + sizeof_gc_object_t"

text \<open>\<^verbatim>\<open>struct gc_free_block\<close>, stored at the start of the span it describes.\<close>

record gc_free_block =
  blk_at :: addr
  blk_size :: size_t

text \<open>The static \<^verbatim>\<open>gc_state\<close>, with the arena's word memory beside it.\<close>

record gc_state =
  heap :: addr
  heap_size :: size_t
  heap_used :: size_t
  objects :: "gc_object list"
  free_list :: "gc_free_block list"
  stack_bottom :: addr
  stack_top :: addr
  initialized :: bool
  registers :: "nat list"
  collection_count :: int
  allocation_count :: int
  mem :: "addr \<Rightarrow> nat"

text \<open>\<^verbatim>\<open>gc_state = {0}\<close>: the state before the constructor has run.\<close>

definition gc_state_0 :: gc_state where
  "gc_state_0 = \<lparr>heap = 0, heap_size = 0, heap_used = 0, objects = [], free_list = [],
     stack_bottom = 0, stack_top = 0, initialized = False, registers = [],
     collection_count = 0, allocation_count = 0, mem = (\<lambda>a. 0)\<rparr>"

text \<open>What a collection reads from the platform: the stack pointer, the words between the
  two ends of the stack in ascending address order, and the words \<^verbatim>\<open>setjmp\<close> stores.\<close>

record gc_env =
  env_sp :: addr
  env_stack :: "nat list"
  env_regs :: "nat list"

text \<open>How a call ends. \<open>Exits\<close> is \<^verbatim>\<open>exit(1)\<close> after a failed \<^verbatim>\<open>mmap\<close>; \<open>Out_of_span\<close> is a
  header and payload written past the span that was acquired (undefined behaviour);
  \<open>No_return\<close> is control reaching the end of a function's text with no \<^verbatim>\<open>return\<close>
  executed.\<close>

datatype outcome =
  Returns addr gc_state
  | Exits
  | Out_of_span
  | No_return gc_state

text \<open>The calls \<^verbatim>\<open>gc_malloc\<close> makes, in program order: \<^verbatim>\<open>gc_collect()\<close>, and
  \<^verbatim>\<open>gc_alloc_from_freelist(size)\<close> with the pointer it returned.\<close>

datatype gc_call =
  Call_gc_collect
  | Call_gc_alloc_from_freelist size_t addr

section \<open>Initialisation\<close>

text \<open>\<^verbatim>\<open>gc_init\<close>; \<open>mm\<close> is what \<^verbatim>\<open>mmap\<close> gives, \<open>None\<close> for \<^verbatim>\<open>MAP_FAILED\<close>, after which the
  process exits.\<close>

definition gc_init :: "addr option \<Rightarrow> gc_state \<Rightarrow> gc_state option" where
  "gc_init mm s =
     (if initialized s then Some s
      else case mm of
        None \<Rightarrow> None
      | Some h \<Rightarrow>
          Some (s\<lparr>heap := h, heap_size := GC_HEAP_SIZE, heap_used := 0, objects := [],
                  collection_count := 0, allocation_count := 0,
                  free_list := [\<lparr>blk_at = h, blk_size = GC_HEAP_SIZE\<rparr>],
                  initialized := True\<rparr>))"

section \<open>Pointer tests and containment lookup\<close>

definition gc_is_pointer :: "gc_state \<Rightarrow> addr \<Rightarrow> bool" where
  "gc_is_pointer s ptr = (heap s \<le> ptr \<and> ptr < heap s + heap_size s)"

definition gc_is_valid_pointer :: "gc_state \<Rightarrow> nat \<Rightarrow> bool" where
  "gc_is_valid_pointer s v =
     (if v mod sizeof_uintptr_t \<noteq> 0 then False else gc_is_pointer s v)"

text \<open>The \<^verbatim>\<open>for\<close> loop of \<^verbatim>\<open>gc_find_object_containing\<close>: the position in the registry of the
  first object whose payload range holds \<open>ptr\<close>.\<close>

fun gc_find_object_loop :: "gc_object list \<Rightarrow> addr \<Rightarrow> nat option" where
  "gc_find_object_loop [] ptr = None"
| "gc_find_object_loop (obj # rest) ptr =
     (if data obj \<le> ptr \<and> ptr < data obj + obj_size obj then Some 0
      else map_option Suc (gc_find_object_loop rest ptr))"

definition gc_find_object_containing :: "gc_state \<Rightarrow> addr \<Rightarrow> nat option" where
  "gc_find_object_containing s ptr =
     (if \<not> gc_is_pointer s ptr then None else gc_find_object_loop (objects s) ptr)"

section \<open>The free list\<close>

text \<open>The \<^verbatim>\<open>while\<close> loop of \<^verbatim>\<open>gc_add_to_freelist\<close> and the splice after it.\<close>

fun gc_add_to_freelist_loop :: "gc_free_block \<Rightarrow> gc_free_block list \<Rightarrow> gc_free_block list" where
  "gc_add_to_freelist_loop new_block [] = [new_block]"
| "gc_add_to_freelist_loop new_block (current # rest) =
     (if blk_at current < blk_at new_block
      then current # gc_add_to_freelist_loop new_block rest
      else new_block # current # rest)"

definition gc_add_to_freelist :: "addr \<Rightarrow> size_t \<Rightarrow> gc_state \<Rightarrow> gc_state" where
  "gc_add_to_freelist ptr sz s =
     (if sz < sizeof_gc_free_block_t then s
      else s\<lparr>free_list :=
                gc_add_to_freelist_loop \<lparr>blk_at = ptr, blk_size = sz\<rparr> (free_list s)\<rparr>)"

text \<open>The \<^verbatim>\<open>while\<close> loop of \<^verbatim>\<open>gc_coalesce_freelist\<close>: a merged block is checked again.\<close>

fun gc_coalesce_loop :: "gc_free_block list \<Rightarrow> gc_free_block list" where
  "gc_coalesce_loop (current # nxt # rest) =
     (if blk_at current + blk_size current = blk_at nxt
      then gc_coalesce_loop
             (current\<lparr>blk_size := (blk_size current + blk_size nxt) mod SIZE_MAX_plus_1\<rparr> # rest)
      else current # gc_coalesce_loop (nxt # rest))"
| "gc_coalesce_loop bs = bs"

definition gc_coalesce_freelist :: "gc_state \<Rightarrow> gc_state" where
  "gc_coalesce_freelist s = s\<lparr>free_list := gc_coalesce_loop (free_list s)\<rparr>"

text \<open>The \<^verbatim>\<open>while\<close> loop of \<^verbatim>\<open>gc_alloc_from_freelist\<close>: the pointer returned (0 when no block
  is large enough) and the list that is left.\<close>

fun gc_alloc_loop :: "size_t \<Rightarrow> gc_free_block list \<Rightarrow> addr \<times> gc_free_block list" where
  "gc_alloc_loop sz [] = (0, [])"
| "gc_alloc_loop sz (block # rest) =
     (if sz \<le> blk_size block then
        (if (sz + sizeof_gc_free_block_t + GC_ALIGNMENT) mod SIZE_MAX_plus_1 \<le> blk_size block
         then (blk_at block,
               \<lparr>blk_at = blk_at block + sz, blk_size = blk_size block - sz\<rparr> # rest)
         else (blk_at block, rest))
      else (case gc_alloc_loop sz rest of (p, rest') \<Rightarrow> (p, block # rest')))"

definition gc_alloc_from_freelist :: "size_t \<Rightarrow> gc_state \<Rightarrow> addr \<times> gc_state" where
  "gc_alloc_from_freelist sz s =
     (case gc_alloc_loop sz (free_list s) of (p, fl) \<Rightarrow> (p, s\<lparr>free_list := fl\<rparr>))"

section \<open>The mark engine\<close>

text \<open>\<^verbatim>\<open>obj->marked = 1\<close> on the registry node at position \<open>k\<close>.\<close>

definition set_marked :: "nat \<Rightarrow> gc_state \<Rightarrow> gc_state" where
  "set_marked k s = s\<lparr>objects := (objects s)[k := (objects s ! k)\<lparr>marked := True\<rparr>]\<rparr>"

text \<open>\<^verbatim>\<open>gc_mark_object\<close> and its \<^verbatim>\<open>for\<close> loop over the payload words \<^verbatim>\<open>data[i]\<close>,
  \<open>i < word_count\<close>. The recursion is the source's: the loop calls \<^verbatim>\<open>gc_mark_object\<close> on
  every word that passes \<^verbatim>\<open>gc_is_valid_pointer\<close> and goes on in the state that call
  leaves.\<close>

function gc_mark_object :: "addr \<Rightarrow> gc_state \<Rightarrow> gc_state"
  and gc_mark_object_loop :: "addr \<Rightarrow> nat \<Rightarrow> nat \<Rightarrow> gc_state \<Rightarrow> gc_state"
where
  "gc_mark_object ptr s =
     (if \<not> gc_is_pointer s ptr then s
      else case gc_find_object_containing s ptr of
        None \<Rightarrow> s
      | Some k \<Rightarrow>
          (if marked (objects s ! k) then s
           else gc_mark_object_loop (data (objects s ! k)) 0
                  (obj_size (objects s ! k) div sizeof_uintptr_t) (set_marked k s)))"
| "gc_mark_object_loop d i word_count s =
     (if i < word_count then
        (if gc_is_valid_pointer s (mem s (d + sizeof_uintptr_t * i))
         then gc_mark_object_loop d (Suc i) word_count
                (gc_mark_object (mem s (d + sizeof_uintptr_t * i)) s)
         else gc_mark_object_loop d (Suc i) word_count s)
      else s)"
  by pat_completeness auto

text \<open>The number of registry objects whose mark flag is clear: what the recursion
  consumes.\<close>

definition unmarked_count :: "gc_state \<Rightarrow> nat" where
  "unmarked_count s = length (filter (\<lambda>obj. \<not> marked obj) (objects s))"

lemma gc_find_object_loop_bound:
  "gc_find_object_loop objs ptr = Some k \<Longrightarrow> k < length objs"
  by (induction objs arbitrary: k) (auto split: if_splits)

lemma gc_find_object_containing_bound:
  "gc_find_object_containing s ptr = Some k \<Longrightarrow> k < length (objects s)"
  by (auto simp: gc_find_object_containing_def gc_find_object_loop_bound split: if_splits)

lemma filter_unmarked_update:
  "k < length objs \<Longrightarrow> \<not> marked (objs ! k) \<Longrightarrow>
   Suc (length (filter (\<lambda>obj. \<not> marked obj) (objs[k := (objs ! k)\<lparr>marked := True\<rparr>])))
     = length (filter (\<lambda>obj. \<not> marked obj) objs)"
proof (induction objs arbitrary: k)
  case Nil
  then show ?case by simp
next
  case (Cons a objs)
  then show ?case by (cases k) auto
qed

lemma unmarked_count_set_marked:
  "k < length (objects s) \<Longrightarrow> \<not> marked (objects s ! k) \<Longrightarrow>
   Suc (unmarked_count (set_marked k s)) = unmarked_count s"
  by (simp add: unmarked_count_def set_marked_def filter_unmarked_update)

text \<open>Wherever the recursion is defined it does not raise the number of unmarked objects;
  this is what the nested call needs.\<close>

lemma gc_mark_unmarked_count_partial:
  "gc_mark_object_gc_mark_object_loop_dom (Inl (ptr, s)) \<Longrightarrow>
     unmarked_count (gc_mark_object ptr s) \<le> unmarked_count s"
  "gc_mark_object_gc_mark_object_loop_dom (Inr (d, i, n, s)) \<Longrightarrow>
     unmarked_count (gc_mark_object_loop d i n s) \<le> unmarked_count s"
proof (induction ptr s and d i n s rule: gc_mark_object_gc_mark_object_loop.pinduct)
  case (1 ptr s)
  show ?case
  proof (cases "gc_is_pointer s ptr")
    case False
    with 1(1) show ?thesis by (simp add: gc_mark_object.psimps)
  next
    case inheap: True
    show ?thesis
    proof (cases "gc_find_object_containing s ptr")
      case None
      with 1(1) inheap show ?thesis by (simp add: gc_mark_object.psimps)
    next
      case (Some k)
      show ?thesis
      proof (cases "marked (objects s ! k)")
        case True
        with 1(1) inheap Some show ?thesis by (simp add: gc_mark_object.psimps)
      next
        case False
        have "unmarked_count (gc_mark_object_loop (data (objects s ! k)) 0
                  (obj_size (objects s ! k) div sizeof_uintptr_t) (set_marked k s))
              \<le> unmarked_count (set_marked k s)"
          using 1(2) inheap Some False by simp
        also have "\<dots> \<le> unmarked_count s"
          using unmarked_count_set_marked [OF gc_find_object_containing_bound [OF Some] False]
          by simp
        finally show ?thesis
          using 1(1) inheap Some False by (simp add: gc_mark_object.psimps)
      qed
    qed
  qed
next
  case (2 d i n s)
  show ?case
  proof (cases "i < n")
    case False
    with 2(1) show ?thesis by (simp add: gc_mark_object_loop.psimps)
  next
    case True
    show ?thesis
    proof (cases "gc_is_valid_pointer s (mem s (d + sizeof_uintptr_t * i))")
      case False
      with 2(1) 2(4) True show ?thesis by (simp add: gc_mark_object_loop.psimps)
    next
      case valid: True
      have "unmarked_count (gc_mark_object_loop d (Suc i) n
               (gc_mark_object (mem s (d + sizeof_uintptr_t * i)) s))
            \<le> unmarked_count (gc_mark_object (mem s (d + sizeof_uintptr_t * i)) s)"
        using 2(3) True valid by simp
      also have "\<dots> \<le> unmarked_count s"
        using 2(2) True valid by simp
      finally show ?thesis
        using 2(1) True valid by (simp add: gc_mark_object_loop.psimps)
    qed
  qed
qed

text \<open>The order in which the recursion descends: first the number of unmarked objects,
  then (inside the loop) the number of payload words still to read.\<close>

definition gc_mark_order ::
  "(((addr \<times> gc_state) + (addr \<times> nat \<times> nat \<times> gc_state)) \<times>
    ((addr \<times> gc_state) + (addr \<times> nat \<times> nat \<times> gc_state))) set" where
  "gc_mark_order = inv_image (less_than <*lex*> less_than)
     (\<lambda>x. case x of Inl (p, s) \<Rightarrow> (unmarked_count s, 0)
                   | Inr (d, i, n, s) \<Rightarrow> (unmarked_count s, Suc (n - i)))"

lemma wf_gc_mark_order: "wf gc_mark_order"
  unfolding gc_mark_order_def by (intro wf_inv_image wf_lex_prod wf_less_than)

lemma unmarked_count_set_marked_less:
  "gc_find_object_containing s ptr = Some k \<Longrightarrow> \<not> marked (objects s ! k) \<Longrightarrow>
   unmarked_count (set_marked k s) < unmarked_count s"
  using unmarked_count_set_marked [of k s] gc_find_object_containing_bound [of s ptr k]
  by simp

text \<open>Every call of the recursion is in its domain: each call of \<^verbatim>\<open>gc_mark_object\<close> that
  goes on sets one clear flag, and the loop counts up to \<open>word_count\<close>.\<close>

lemma gc_mark_dom_total: "gc_mark_object_gc_mark_object_loop_dom x"
proof -
  have "All gc_mark_object_gc_mark_object_loop_dom"
  proof (rule "gc_mark_object_gc_mark_object_loop.termination" [OF wf_gc_mark_order])
    fix ptr s k
    assume "gc_find_object_containing s ptr = Some k" "\<not> marked (objects s ! k)"
    then show "(Inr (data (objects s ! k), 0, obj_size (objects s ! k) div sizeof_uintptr_t,
                     set_marked k s), Inl (ptr, s)) \<in> gc_mark_order"
      by (simp add: gc_mark_order_def unmarked_count_set_marked_less)
  next
    fix d i word_count :: nat and s
    show "(Inl (mem s (d + sizeof_uintptr_t * i), s), Inr (d, i, word_count, s)) \<in> gc_mark_order"
      by (simp add: gc_mark_order_def)
  next
    fix d i word_count :: nat and s
    assume "i < word_count"
      and "gc_mark_object_gc_mark_object_loop_dom (Inl (mem s (d + sizeof_uintptr_t * i), s))"
    then show "(Inr (d, Suc i, word_count, gc_mark_object (mem s (d + sizeof_uintptr_t * i)) s),
                Inr (d, i, word_count, s)) \<in> gc_mark_order"
      using gc_mark_unmarked_count_partial(1) [of "mem s (d + sizeof_uintptr_t * i)" s]
      by (auto simp: gc_mark_order_def)
  next
    fix d i word_count :: nat and s :: gc_state
    assume "i < word_count"
    then show "(Inr (d, Suc i, word_count, s), Inr (d, i, word_count, s)) \<in> gc_mark_order"
      by (auto simp: gc_mark_order_def)
  qed
  then show ?thesis by blast
qed

termination gc_mark_object
  using gc_mark_dom_total by blast

declare gc_mark_object.simps [simp del] gc_mark_object_loop.simps [simp del]

section \<open>Root scanning\<close>

text \<open>The two scanning loops of \<^verbatim>\<open>gc_mark_roots\<close>, over the words they read.\<close>

fun gc_mark_roots_loop :: "nat list \<Rightarrow> gc_state \<Rightarrow> gc_state" where
  "gc_mark_roots_loop [] s = s"
| "gc_mark_roots_loop (w # ws) s =
     (if gc_is_valid_pointer s w then gc_mark_roots_loop ws (gc_mark_object w s)
      else gc_mark_roots_loop ws s)"

definition gc_mark_roots :: "gc_env \<Rightarrow> gc_state \<Rightarrow> gc_state" where
  "gc_mark_roots env s =
     (let s1 = s\<lparr>registers := env_regs env\<rparr>;
          s2 = s1\<lparr>stack_top := env_sp env\<rparr>;
          s3 = gc_mark_roots_loop (env_stack env) s2
      in gc_mark_roots_loop (registers s3) s3)"

section \<open>Sweep and collection\<close>

text \<open>The \<^verbatim>\<open>while\<close> loop of \<^verbatim>\<open>gc_sweep\<close> over the registry: the nodes that stay linked, and
  the state with the swept spans released and \<^verbatim>\<open>heap_used\<close> lowered (\<^verbatim>\<open>size_t\<close>
  subtraction).\<close>

fun gc_sweep_loop :: "gc_object list \<Rightarrow> gc_state \<Rightarrow> gc_object list \<times> gc_state" where
  "gc_sweep_loop [] s = ([], s)"
| "gc_sweep_loop (obj # rest) s =
     (if \<not> marked obj then
        (let total_size = (sizeof_gc_object_t + obj_size obj) mod SIZE_MAX_plus_1;
             s1 = gc_add_to_freelist (obj_at obj) total_size s;
             s2 = s1\<lparr>heap_used :=
                       (heap_used s1 + SIZE_MAX_plus_1 - total_size) mod SIZE_MAX_plus_1\<rparr>
         in gc_sweep_loop rest s2)
      else (case gc_sweep_loop rest s of
              (kept, s') \<Rightarrow> (obj\<lparr>marked := False\<rparr> # kept, s')))"

definition gc_sweep :: "gc_state \<Rightarrow> gc_state" where
  "gc_sweep s =
     (case gc_sweep_loop (objects s) s of
        (kept, s') \<Rightarrow> gc_coalesce_freelist (s'\<lparr>objects := kept\<rparr>))"

definition gc_collect :: "gc_env \<Rightarrow> gc_state \<Rightarrow> gc_state" where
  "gc_collect env s =
     (if \<not> initialized s then s
      else (let s1 = gc_mark_roots env s;
                s2 = gc_sweep s1
            in s2\<lparr>collection_count := collection_count s2 + 1\<rparr>))"

definition gc_force_collect :: "gc_env \<Rightarrow> gc_state \<Rightarrow> gc_state" where
  "gc_force_collect env s = gc_collect env s"

section \<open>Allocation\<close>

text \<open>\<^verbatim>\<open>(size + GC_ALIGNMENT - 1) & ~(GC_ALIGNMENT - 1)\<close> in \<^verbatim>\<open>size_t\<close>: the sum wraps, and
  the mask clears the low three bits.\<close>

definition gc_align :: "size_t \<Rightarrow> size_t" where
  "gc_align sz = ((sz + GC_ALIGNMENT - 1) mod SIZE_MAX_plus_1) div GC_ALIGNMENT * GC_ALIGNMENT"

text \<open>\<^verbatim>\<open>gc_state.heap_used + total_size > gc_state.heap_size * GC_THRESHOLD\<close>. The sum is a
  \<^verbatim>\<open>size_t\<close>; the source compares in \<^verbatim>\<open>double\<close>, the model in the reals. For the arena of
  \<^verbatim>\<open>GC_HEAP_SIZE\<close> bytes the two agree on every \<^verbatim>\<open>size_t\<close> sum: the product lies strictly
  between 838860 and 838861, and the conversion of the sum is exact below \<open>2 ^ 53\<close> and
  monotone above.\<close>

definition GC_THRESHOLD :: real where
  "GC_THRESHOLD = 8 / 10"

definition gc_over_threshold :: "gc_state \<Rightarrow> size_t \<Rightarrow> bool" where
  "gc_over_threshold s total_size =
     (real ((heap_used s + total_size) mod SIZE_MAX_plus_1) > real (heap_size s) * GC_THRESHOLD)"

text \<open>The end of \<^verbatim>\<open>gc_malloc\<close>: the header is written at \<open>ptr\<close>, the node is linked at the
  head of the registry, the counters go up and the payload is zeroed. When header and
  payload are longer than \<open>total_size\<close> (the sum wrapped), the writes leave the span.\<close>

definition gc_malloc_init_object :: "addr \<Rightarrow> size_t \<Rightarrow> size_t \<Rightarrow> gc_state \<Rightarrow> outcome" where
  "gc_malloc_init_object ptr sz total_size s =
     (if sizeof_gc_object_t + sz \<noteq> total_size then Out_of_span
      else (let obj = \<lparr>obj_at = ptr, obj_size = sz, marked = False\<rparr>
            in Returns (data obj)
                 (s\<lparr>objects := obj # objects s,
                    heap_used := (heap_used s + total_size) mod SIZE_MAX_plus_1,
                    allocation_count := allocation_count s + 1,
                    mem := (\<lambda>a. if data obj \<le> a \<and> a < data obj + sz then 0 else mem s a)\<rparr>)))"

text \<open>\<^verbatim>\<open>gc_malloc\<close>. \<open>mm\<close> is the result of \<^verbatim>\<open>mmap\<close> should \<^verbatim>\<open>gc_init\<close> run; \<open>env1\<close> and
  \<open>env2\<close> are what the collection before the first acquisition and the collection before
  the retry read from the platform. The first component is the list of calls made.\<close>

definition gc_malloc ::
  "addr option \<Rightarrow> gc_env \<Rightarrow> gc_env \<Rightarrow> size_t \<Rightarrow> gc_state \<Rightarrow> gc_call list \<times> outcome" where
  "gc_malloc mm env1 env2 sz s =
     (case (if \<not> initialized s then gc_init mm s else Some s) of
        None \<Rightarrow> ([], Exits)
      | Some s0 \<Rightarrow>
          (let aligned_size = gc_align sz;
               total_size = (sizeof_gc_object_t + aligned_size) mod SIZE_MAX_plus_1;
               over = gc_over_threshold s0 total_size;
               s1 = (if over then gc_collect env1 s0 else s0);
               calls1 = (if over then [Call_gc_collect] else [])
           in case gc_alloc_from_freelist total_size s1 of
                (ptr, s2) \<Rightarrow>
                  (let calls2 = calls1 @ [Call_gc_alloc_from_freelist total_size ptr]
                   in if ptr = 0 then
                        (let s3 = gc_collect env2 s2
                         in case gc_alloc_from_freelist total_size s3 of
                              (ptr', s4) \<Rightarrow>
                                (let calls3 = calls2 @
                                       [Call_gc_collect,
                                        Call_gc_alloc_from_freelist total_size ptr']
                                 in if ptr' = 0 then (calls3, Returns 0 s4)
                                    else (calls3,
                                          gc_malloc_init_object ptr' aligned_size total_size s4)))
                      else (calls2, gc_malloc_init_object ptr aligned_size total_size s2))))"

section \<open>Resizing\<close>

text \<open>The \<^verbatim>\<open>for\<close> loop of \<^verbatim>\<open>gc_realloc\<close>: the first registry node whose payload address is
  \<open>ptr\<close>.\<close>

fun gc_realloc_loop :: "gc_object list \<Rightarrow> addr \<Rightarrow> gc_object option" where
  "gc_realloc_loop [] ptr = None"
| "gc_realloc_loop (cur # rest) ptr =
     (if data cur = ptr then Some cur else gc_realloc_loop rest ptr)"

text \<open>\<^verbatim>\<open>gc_realloc\<close>, brace for brace. The block opened by
  \<^verbatim>\<open>if (aligned_new_size <= obj->size) {\<close> is not closed after \<^verbatim>\<open>return ptr;\<close>: the statements
  under the comment \<^verbatim>\<open>FALLBACK: Allocate new block and copy\<close> (the call
  \<^verbatim>\<open>gc_malloc(new_size)\<close>, the \<^verbatim>\<open>memcpy\<close> of \<^verbatim>\<open>obj->size\<close> bytes and \<^verbatim>\<open>return new_ptr\<close>) stand
  inside that block behind the \<^verbatim>\<open>return\<close>, and the brace that follows them closes the
  block. They are never executed. When the condition is false, control passes the block
  and meets no further statement of \<^verbatim>\<open>gc_realloc\<close>: no value is returned.\<close>

definition gc_realloc ::
  "addr option \<Rightarrow> gc_env \<Rightarrow> gc_env \<Rightarrow> addr \<Rightarrow> size_t \<Rightarrow> gc_state \<Rightarrow> outcome" where
  "gc_realloc mm env1 env2 ptr new_size s =
     (if ptr = 0 then snd (gc_malloc mm env1 env2 new_size s)
      else if new_size = 0 then Returns 0 s
      else case gc_realloc_loop (objects s) ptr of
        None \<Rightarrow> snd (gc_malloc mm env1 env2 new_size s)
      | Some obj \<Rightarrow>
          (let aligned_new_size = gc_align new_size
           in if aligned_new_size \<le> obj_size obj then Returns ptr s
              else No_return s))"

section \<open>Concrete states\<close>

text \<open>What a collection may read from the platform: three stack words and two register
  words, one of each a pointer into the payload of the object of \<open>ex_state\<close>.\<close>

definition ex_env :: gc_env where
  "ex_env = \<lparr>env_sp = 140737488347000, env_stack = [0, 65560, 7], env_regs = [65560, 12]\<rparr>"

text \<open>The arena mapped at 65536 after \<^verbatim>\<open>gc_malloc(8)\<close>: one object of 8 payload bytes at the
  start of the arena, the rest one free block.\<close>

definition ex_state :: gc_state where
  "ex_state = \<lparr>heap = 65536, heap_size = 1048576, heap_used = 32,
     objects = [\<lparr>obj_at = 65536, obj_size = 8, marked = False\<rparr>],
     free_list = [\<lparr>blk_at = 65568, blk_size = 1048544\<rparr>],
     stack_bottom = 140737488350000, stack_top = 0, initialized = True, registers = [],
     collection_count = 0, allocation_count = 1, mem = (\<lambda>a. 0)\<rparr>"

text \<open>Three allocations of 8 bytes in a fresh arena, newest first in the registry.\<close>

definition ex_state_abc :: gc_state where
  "ex_state_abc = \<lparr>heap = 65536, heap_size = 1048576, heap_used = 96,
     objects = [\<lparr>obj_at = 65600, obj_size = 8, marked = False\<rparr>,
                \<lparr>obj_at = 65568, obj_size = 8, marked = False\<rparr>,
                \<lparr>obj_at = 65536, obj_size = 8, marked = False\<rparr>],
     free_list = [\<lparr>blk_at = 65632, blk_size = 1048480\<rparr>],
     stack_bottom = 140737488350000, stack_top = 0, initialized = True, registers = [],
     collection_count = 0, allocation_count = 3, mem = (\<lambda>a. 0)\<rparr>"

text \<open>A platform state whose only word that passes the pointer test is 65592, the payload
  address of the second object.\<close>

definition ex_env_b :: gc_env where
  "ex_env_b = \<lparr>env_sp = 140737488347000, env_stack = [3, 65592], env_regs = [1048576]\<rparr>"

text \<open>\<open>ex_state_abc\<close> after a collection that reads \<open>ex_env_b\<close>: the second object survives,
  the span of the third has merged with the tail of the arena, the span of the first is a
  free block of its own.\<close>

definition ex_state_b :: gc_state where
  "ex_state_b = \<lparr>heap = 65536, heap_size = 1048576, heap_used = 32,
     objects = [\<lparr>obj_at = 65568, obj_size = 8, marked = False\<rparr>],
     free_list = [\<lparr>blk_at = 65536, blk_size = 32\<rparr>, \<lparr>blk_at = 65600, blk_size = 1048512\<rparr>],
     stack_bottom = 140737488350000, stack_top = 140737488347000, initialized = True,
     registers = [1048576],
     collection_count = 1, allocation_count = 3, mem = (\<lambda>a. 0)\<rparr>"

text \<open>A platform state none of whose words passes the pointer test.\<close>

definition ex_env_none :: gc_env where
  "ex_env_none = \<lparr>env_sp = 140737488347000, env_stack = [3, 7], env_regs = [0]\<rparr>"

text \<open>The arena after \<^verbatim>\<open>gc_malloc(900000)\<close> in the fresh state: the request is over the
  threshold, so a collection has run first.\<close>

definition ex_state_big :: gc_state where
  "ex_state_big = \<lparr>heap = 65536, heap_size = 1048576, heap_used = 900024,
     objects = [\<lparr>obj_at = 65536, obj_size = 900000, marked = False\<rparr>],
     free_list = [\<lparr>blk_at = 965560, blk_size = 148552\<rparr>],
     stack_bottom = 140737488350000, stack_top = 140737488347000, initialized = True,
     registers = [0],
     collection_count = 1, allocation_count = 1, mem = (\<lambda>a. 0)\<rparr>"

text \<open>\<open>ex_state_abc\<close> after \<^verbatim>\<open>gc_malloc(16)\<close> and three stores of the program: the new
  object, first in the registry, holds the payload addresses of the second and the third
  allocation, and the second allocation holds the payload address of the new object. The
  references form a cycle between the two.\<close>

definition ex_graph :: gc_state where
  "ex_graph = \<lparr>heap = 65536, heap_size = 1048576, heap_used = 136,
     objects = [\<lparr>obj_at = 65632, obj_size = 16, marked = False\<rparr>,
                \<lparr>obj_at = 65600, obj_size = 8, marked = False\<rparr>,
                \<lparr>obj_at = 65568, obj_size = 8, marked = False\<rparr>,
                \<lparr>obj_at = 65536, obj_size = 8, marked = False\<rparr>],
     free_list = [\<lparr>blk_at = 65672, blk_size = 1048440\<rparr>],
     stack_bottom = 140737488350000, stack_top = 0, initialized = True, registers = [],
     collection_count = 0, allocation_count = 4,
     mem = (\<lambda>a. if a = 65656 then 65592 else if a = 65664 then 65624
                else if a = 65592 then 65656 else 0)\<rparr>"

text \<open>\<open>ex_graph\<close> during the marking from 65656, at the call of \<^verbatim>\<open>gc_mark_object\<close> on the
  payload word of the second allocation: the flags of the new object and of the second
  allocation are set, the second word of the new object has not been scanned yet.\<close>

definition ex_graph_mid :: gc_state where
  "ex_graph_mid = ex_graph\<lparr>objects :=
     [\<lparr>obj_at = 65632, obj_size = 16, marked = True\<rparr>,
      \<lparr>obj_at = 65600, obj_size = 8, marked = False\<rparr>,
      \<lparr>obj_at = 65568, obj_size = 8, marked = True\<rparr>,
      \<lparr>obj_at = 65536, obj_size = 8, marked = False\<rparr>]\<rparr>"

section \<open>The layout of the arena\<close>

text \<open>The span of an object is its header and its payload: the \<^verbatim>\<open>total_size\<close> that
  \<^verbatim>\<open>gc_malloc\<close> acquires for it and \<^verbatim>\<open>gc_sweep\<close> releases, here without wrap-around.\<close>

definition obj_total_size :: "gc_object \<Rightarrow> nat" where
  "obj_total_size obj = sizeof_gc_object_t + obj_size obj"

text \<open>The free block that \<^verbatim>\<open>gc_sweep\<close> makes of an object's span.\<close>

definition obj_block :: "gc_object \<Rightarrow> gc_free_block" where
  "obj_block obj = \<lparr>blk_at = obj_at obj, blk_size = obj_total_size obj\<rparr>"

text \<open>The spans \<open>[a, a + n)\<close> and \<open>[b, b + m)\<close> do not overlap.\<close>

definition spans_apart :: "addr \<Rightarrow> nat \<Rightarrow> addr \<Rightarrow> nat \<Rightarrow> bool" where
  "spans_apart a n b m = (a + n \<le> b \<or> b + m \<le> a)"

abbreviation blk_apart :: "gc_free_block \<Rightarrow> gc_free_block \<Rightarrow> bool" where
  "blk_apart x y \<equiv> spans_apart (blk_at x) (blk_size x) (blk_at y) (blk_size y)"

abbreviation obj_apart :: "gc_object \<Rightarrow> gc_object \<Rightarrow> bool" where
  "obj_apart x y \<equiv> spans_apart (obj_at x) (obj_total_size x) (obj_at y) (obj_total_size y)"

abbreviation obj_blk_apart :: "gc_object \<Rightarrow> gc_free_block \<Rightarrow> bool" where
  "obj_blk_apart x b \<equiv> spans_apart (obj_at x) (obj_total_size x) (blk_at b) (blk_size b)"

text \<open>A free block that can hold its own header and lies between \<open>lo\<close> and \<open>hi\<close>; an object
  whose span lies between \<open>lo\<close> and \<open>hi\<close>.\<close>

definition blk_in :: "addr \<Rightarrow> addr \<Rightarrow> gc_free_block \<Rightarrow> bool" where
  "blk_in lo hi b =
     (sizeof_gc_free_block_t \<le> blk_size b \<and> lo \<le> blk_at b \<and> blk_at b + blk_size b \<le> hi)"

definition obj_in :: "addr \<Rightarrow> addr \<Rightarrow> gc_object \<Rightarrow> bool" where
  "obj_in lo hi obj = (lo \<le> obj_at obj \<and> obj_at obj + obj_total_size obj \<le> hi)"

text \<open>A free list in address order without overlap: every block ends no later than every
  later block starts. After coalescing there is a gap before every later block.\<close>

definition fl_ordered :: "gc_free_block list \<Rightarrow> bool" where
  "fl_ordered fl = sorted_wrt (\<lambda>b c. blk_at b + blk_size b \<le> blk_at c) fl"

definition fl_separated :: "gc_free_block list \<Rightarrow> bool" where
  "fl_separated fl = sorted_wrt (\<lambda>b c. blk_at b + blk_size b < blk_at c) fl"

text \<open>No block starts at the null address or ends beyond the address space: the sizes of
  two adjacent blocks add up without wrap-around.\<close>

definition fl_nowrap :: "gc_free_block list \<Rightarrow> bool" where
  "fl_nowrap fl = (\<forall>b \<in> set fl. 0 < blk_at b \<and> blk_at b + blk_size b \<le> SIZE_MAX_plus_1)"

text \<open>The layout of an initialised collector: the arena is the one \<^verbatim>\<open>gc_init\<close> mapped, the
  free blocks are in it and in order, the objects are in it, no two spans overlap,
  \<^verbatim>\<open>heap_used\<close> is the sum of the objects' spans, and used and free bytes together fit
  the arena.\<close>

definition gc_layout :: "gc_state \<Rightarrow> bool" where
  "gc_layout s \<longleftrightarrow>
     0 < heap s \<and> heap_size s = GC_HEAP_SIZE \<and> heap s + heap_size s \<le> SIZE_MAX_plus_1 \<and>
     (\<forall>b \<in> set (free_list s). blk_in (heap s) (heap s + heap_size s) b) \<and>
     fl_ordered (free_list s) \<and>
     (\<forall>obj \<in> set (objects s). obj_in (heap s) (heap s + heap_size s) obj) \<and>
     sorted_wrt obj_apart (objects s) \<and>
     (\<forall>obj \<in> set (objects s). \<forall>b \<in> set (free_list s). obj_blk_apart obj b) \<and>
     heap_used s = sum_list (map obj_total_size (objects s)) \<and>
     heap_used s + sum_list (map blk_size (free_list s)) \<le> heap_size s"

text \<open>What holds between two calls of the interface: before initialisation nothing is
  allocated; afterwards the layout is sound, the free list is coalesced and every mark
  flag is clear.\<close>

definition gc_invariant :: "gc_state \<Rightarrow> bool" where
  "gc_invariant s =
     (if initialized s
      then gc_layout s \<and> fl_separated (free_list s) \<and> (\<forall>obj \<in> set (objects s). \<not> marked obj)
      else objects s = [] \<and> free_list s = [] \<and> heap_used s = 0)"

text \<open>The state with every mark flag cleared: what marking does not change.\<close>

definition clear_marks :: "gc_state \<Rightarrow> gc_state" where
  "clear_marks s = s\<lparr>objects := map (\<lambda>obj. obj\<lparr>marked := False\<rparr>) (objects s)\<rparr>"

text \<open>The objects a sweep unlinks, and the free list a sweep leaves: their spans inserted
  in registry order, then coalesced.\<close>

definition unmarked :: "gc_object list \<Rightarrow> gc_object list" where
  "unmarked objs = filter (\<lambda>obj. \<not> marked obj) objs"

definition swept_free_list :: "gc_state \<Rightarrow> gc_free_block list" where
  "swept_free_list s =
     gc_coalesce_loop
       (fold gc_add_to_freelist_loop (map obj_block (unmarked (objects s))) (free_list s))"

text \<open>What \<^verbatim>\<open>mmap\<close> can give: \<^verbatim>\<open>MAP_FAILED\<close>, or the address of \<^verbatim>\<open>GC_HEAP_SIZE\<close> mapped bytes,
  which is not null and ends within the address space.\<close>

definition mmap_ok :: "addr option \<Rightarrow> bool" where
  "mmap_ok mm =
     (case mm of None \<Rightarrow> True | Some h \<Rightarrow> 0 < h \<and> h + GC_HEAP_SIZE \<le> SIZE_MAX_plus_1)"

text \<open>The payload size rounded up to the alignment unit, in the natural numbers: the
  least multiple of \<^verbatim>\<open>GC_ALIGNMENT\<close> that is not below \<open>sz\<close>.\<close>

definition rounded_up :: "nat \<Rightarrow> nat" where
  "rounded_up sz = (sz + GC_ALIGNMENT - 1) div GC_ALIGNMENT * GC_ALIGNMENT"

text \<open>The \<^verbatim>\<open>total_size\<close> that \<^verbatim>\<open>gc_malloc\<close> computes for a request of \<open>sz\<close> bytes.\<close>

definition gc_total_size :: "size_t \<Rightarrow> size_t" where
  "gc_total_size sz = (sizeof_gc_object_t + gc_align sz) mod SIZE_MAX_plus_1"

text \<open>The states a program can bring the collector into: from the zeroed static state
  with any stack-bottom marker, by initialisation, allocation, forced collection, and
  writes of the program to memory.\<close>

inductive gc_reachable :: "gc_state \<Rightarrow> bool" where
  start: "gc_reachable (gc_state_0\<lparr>stack_bottom := sb\<rparr>)"
| init: "gc_reachable s \<Longrightarrow> mmap_ok mm \<Longrightarrow> gc_init mm s = Some s' \<Longrightarrow> gc_reachable s'"
| malloc: "gc_reachable s \<Longrightarrow> mmap_ok mm \<Longrightarrow>
           gc_malloc mm env1 env2 n s = (calls, Returns p s') \<Longrightarrow> gc_reachable s'"
| collect: "gc_reachable s \<Longrightarrow> gc_reachable (gc_force_collect env s)"
| store: "gc_reachable s \<Longrightarrow> gc_reachable (s\<lparr>mem := m\<rparr>)"

text \<open>The usage counter equals the sum of header size plus payload size over the
  registry.\<close>

definition heap_used_accounted :: "gc_state \<Rightarrow> bool" where
  "heap_used_accounted s \<longleftrightarrow>
     heap_used s = sum_list (map (\<lambda>obj. sizeof_gc_object_t + obj_size obj) (objects s))"

text \<open>The bytes a collection with platform state \<open>env\<close> reclaims in state \<open>s\<close>: header plus
  payload size of every object that the mark phase leaves unmarked, which are the objects
  \<^verbatim>\<open>gc_sweep\<close> unlinks.\<close>

definition gc_reclaimed :: "gc_env \<Rightarrow> gc_state \<Rightarrow> nat" where
  "gc_reclaimed env s =
     sum_list (map obj_total_size (unmarked (objects (gc_mark_roots env s))))"

section \<open>The conservative reference graph\<close>

text \<open>Object \<open>k\<close> of the registry refers to object \<open>k'\<close>: one of the \<open>size / sizeof(uintptr_t)\<close>
  payload words of \<open>k\<close> passes \<^verbatim>\<open>gc_is_valid_pointer\<close>, and \<^verbatim>\<open>gc_find_object_containing\<close>
  finds \<open>k'\<close> for it. These are the words on which the loop of \<^verbatim>\<open>gc_mark_object\<close> calls
  \<^verbatim>\<open>gc_mark_object\<close>.\<close>

definition gc_edge :: "gc_state \<Rightarrow> nat \<Rightarrow> nat \<Rightarrow> bool" where
  "gc_edge s k k' \<longleftrightarrow>
     (\<exists>i < obj_size (objects s ! k) div sizeof_uintptr_t.
        gc_is_valid_pointer s (mem s (data (objects s ! k) + sizeof_uintptr_t * i)) \<and>
        gc_find_object_containing s (mem s (data (objects s ! k) + sizeof_uintptr_t * i)) = Some k')"

text \<open>The objects conservatively reachable from a candidate address: the object
  \<^verbatim>\<open>gc_find_object_containing\<close> finds for the address, and every object to which a chain of
  references leads from it.\<close>

inductive gc_reaches :: "gc_state \<Rightarrow> addr \<Rightarrow> nat \<Rightarrow> bool" where
  root: "gc_find_object_containing s ptr = Some k \<Longrightarrow> gc_reaches s ptr k"
| step: "gc_reaches s ptr k \<Longrightarrow> gc_edge s k k' \<Longrightarrow> gc_reaches s ptr k'"

text \<open>The set of marked objects is closed under references: no marked object refers to
  an unmarked one. It is so whenever no flag is set.\<close>

definition marks_closed :: "gc_state \<Rightarrow> bool" where
  "marks_closed s \<longleftrightarrow>
     (\<forall>k < length (objects s). marked (objects s ! k) \<longrightarrow>
        (\<forall>k'. gc_edge s k k' \<longrightarrow> marked (objects s ! k')))"

text \<open>What a call of the marking recursion does to the state: only mark flags change,
  none is cleared, and every object whose flag the call has set refers to marked objects
  only.\<close>

definition mark_extends :: "gc_state \<Rightarrow> gc_state \<Rightarrow> bool" where
  "mark_extends s s' \<longleftrightarrow>
     clear_marks s' = clear_marks s \<and>
     (\<forall>k < length (objects s). marked (objects s ! k) \<longrightarrow> marked (objects s' ! k)) \<and>
     (\<forall>k < length (objects s). marked (objects s' ! k) \<and> \<not> marked (objects s ! k) \<longrightarrow>
        (\<forall>k'. gc_edge s k k' \<longrightarrow> marked (objects s' ! k')))"

section \<open>Lemmas on the free list, marking and sweeping\<close>

lemma fl_separated_ordered: "fl_separated fl \<Longrightarrow> fl_ordered fl"
  unfolding fl_separated_def fl_ordered_def
  by (erule sorted_wrt_mono_rel [rotated]) auto

lemma set_gc_add_to_freelist_loop:
  "set (gc_add_to_freelist_loop nb fl) = insert nb (set fl)"
  by (induction fl) auto

lemma fl_ordered_gc_add_to_freelist_loop:
  "fl_ordered fl \<Longrightarrow> \<forall>b \<in> set fl. 0 < blk_size b \<Longrightarrow> 0 < blk_size nb \<Longrightarrow>
   \<forall>b \<in> set fl. spans_apart (blk_at nb) (blk_size nb) (blk_at b) (blk_size b) \<Longrightarrow>
   fl_ordered (gc_add_to_freelist_loop nb fl)"
proof (induction fl)
  case Nil
  then show ?case by (simp add: fl_ordered_def)
next
  case (Cons c rest)
  show ?case
  proof (cases "blk_at c < blk_at nb")
    case True
    have rest: "fl_ordered (gc_add_to_freelist_loop nb rest)"
      using Cons by (simp add: fl_ordered_def)
    have "blk_at c + blk_size c \<le> blk_at nb"
      using Cons.prems True by (auto simp: spans_apart_def)
    then show ?thesis
      using True rest Cons.prems(1)
      by (auto simp: fl_ordered_def set_gc_add_to_freelist_loop)
  next
    case False
    have "blk_at nb + blk_size nb \<le> blk_at c"
      using Cons.prems False by (auto simp: spans_apart_def)
    then show ?thesis
      using False Cons.prems(1) by (fastforce simp: fl_ordered_def)
  qed
qed

lemma gc_coalesce_loop_starts:
  "blk_at ` set (gc_coalesce_loop fl) \<subseteq> blk_at ` set fl"
  by (induction fl rule: gc_coalesce_loop.induct) auto

lemma fl_nowrap_merge:
  assumes "fl_nowrap (current # nxt # rest)" "blk_at current + blk_size current = blk_at nxt"
  shows "(blk_size current + blk_size nxt) mod SIZE_MAX_plus_1 = blk_size current + blk_size nxt"
    and "fl_nowrap (current\<lparr>blk_size := blk_size current + blk_size nxt\<rparr> # rest)"
  using assms by (auto simp: fl_nowrap_def)

lemma fl_nowrap_tl: "fl_nowrap (b # fl) \<Longrightarrow> fl_nowrap fl"
  by (simp add: fl_nowrap_def)

lemma fl_ordered_merge:
  "fl_ordered (current # nxt # rest) \<Longrightarrow> blk_at current + blk_size current = blk_at nxt \<Longrightarrow>
   fl_ordered (current\<lparr>blk_size := blk_size current + blk_size nxt\<rparr> # rest)"
  by (auto simp: fl_ordered_def)

lemma fl_ordered_tl: "fl_ordered (b # fl) \<Longrightarrow> fl_ordered fl"
  by (simp add: fl_ordered_def)

text \<open>Coalescing keeps a property of blocks that merging two adjacent blocks keeps.\<close>

lemma gc_coalesce_loop_all:
  assumes "fl_nowrap fl"
    and "\<forall>b \<in> set fl. P b"
    and merge: "\<And>b c. P b \<Longrightarrow> P c \<Longrightarrow> blk_at b + blk_size b = blk_at c \<Longrightarrow>
           P (b\<lparr>blk_size := blk_size b + blk_size c\<rparr>)"
  shows "\<forall>b \<in> set (gc_coalesce_loop fl). P b"
  using assms(1,2)
proof (induction fl rule: gc_coalesce_loop.induct)
  case (1 current nxt rest)
  show ?case
  proof (cases "blk_at current + blk_size current = blk_at nxt")
    case True
    let ?m = "current\<lparr>blk_size := (blk_size current + blk_size nxt) mod SIZE_MAX_plus_1\<rparr>"
    note nw = fl_nowrap_merge [OF "1.prems"(1) True]
    have eq: "gc_coalesce_loop (current # nxt # rest) = gc_coalesce_loop (?m # rest)"
      using True by simp
    have "P current" "P nxt" and rest: "\<forall>b \<in> set rest. P b"
      using "1.prems"(2) by simp_all
    then have "P (current\<lparr>blk_size := blk_size current + blk_size nxt\<rparr>)"
      using merge [of current nxt] True by blast
    then have "P ?m" by (simp only: nw(1))
    with rest have all: "\<forall>b \<in> set (?m # rest). P b"
      by (simp only: list.set ball_simps insert_iff)
    have "fl_nowrap (?m # rest)"
      using nw(2) by (simp only: nw(1))
    then have "\<forall>b \<in> set (gc_coalesce_loop (?m # rest)). P b"
      using all by (rule "1.IH"(1) [OF True])
    then show ?thesis by (simp only: eq)
  next
    case False
    have eq: "gc_coalesce_loop (current # nxt # rest) = current # gc_coalesce_loop (nxt # rest)"
      using False by simp
    have "\<forall>b \<in> set (nxt # rest). P b" "P current"
      using "1.prems"(2) by simp_all
    then have "\<forall>b \<in> set (gc_coalesce_loop (nxt # rest)). P b" "P current"
      using "1.IH"(2) [OF False fl_nowrap_tl [OF "1.prems"(1)]] by blast+
    then show ?thesis
      unfolding eq by (simp only: list.set ball_simps insert_iff)
  qed
qed simp_all

lemma gc_coalesce_loop_sum:
  "fl_nowrap fl \<Longrightarrow>
   sum_list (map blk_size (gc_coalesce_loop fl)) = sum_list (map blk_size fl)"
proof (induction fl rule: gc_coalesce_loop.induct)
  case (1 current nxt rest)
  show ?case
  proof (cases "blk_at current + blk_size current = blk_at nxt")
    case True
    then show ?thesis
      using "1.IH"(1) fl_nowrap_merge [OF "1.prems" True] by simp
  next
    case False
    then show ?thesis
      using "1.IH"(2) fl_nowrap_tl [OF "1.prems"] by simp
  qed
qed simp_all

lemma gc_coalesce_loop_grows:
  "fl_nowrap fl \<Longrightarrow> b \<in> set fl \<Longrightarrow> \<exists>c \<in> set (gc_coalesce_loop fl). blk_size b \<le> blk_size c"
proof (induction fl arbitrary: b rule: gc_coalesce_loop.induct)
  case (1 current nxt rest)
  show ?case
  proof (cases "blk_at current + blk_size current = blk_at nxt")
    case True
    let ?m = "current\<lparr>blk_size := blk_size current + blk_size nxt\<rparr>"
    have "\<exists>b' \<in> set (?m # rest). blk_size b \<le> blk_size b'"
      using "1.prems"(2) by auto
    then obtain b' where "b' \<in> set (?m # rest)" "blk_size b \<le> blk_size b'" by blast
    moreover obtain c where c: "c \<in> set (gc_coalesce_loop (?m # rest))" "blk_size b' \<le> blk_size c"
      using "1.IH"(1) [of b'] True fl_nowrap_merge [OF "1.prems"(1) True] calculation(1) by auto
    moreover have "gc_coalesce_loop (current # nxt # rest) = gc_coalesce_loop (?m # rest)"
      using True fl_nowrap_merge(1) [OF "1.prems"(1) True] by simp
    ultimately have "c \<in> set (gc_coalesce_loop (current # nxt # rest))" "blk_size b \<le> blk_size c"
      by simp_all
    then show ?thesis by blast
  next
    case False
    then show ?thesis
      using "1.IH"(2) [of b] "1.prems" fl_nowrap_tl [OF "1.prems"(1)] by auto
  qed
qed simp_all

lemma gc_coalesce_loop_ordered_separated:
  assumes "fl_ordered fl" "fl_nowrap fl"
  shows "fl_separated (gc_coalesce_loop fl)"
proof -
  show ?thesis
    using assms
  proof (induction fl rule: gc_coalesce_loop.induct)
    case (1 current nxt rest)
    show ?case
    proof (cases "blk_at current + blk_size current = blk_at nxt")
      case True
      then show ?thesis
        using "1.IH"(1) fl_nowrap_merge [OF "1.prems"(2) True] fl_ordered_merge [OF "1.prems"(1) True]
        by simp
    next
      case False
      have "fl_separated (gc_coalesce_loop (nxt # rest))"
        using "1.IH"(2) False fl_ordered_tl [OF "1.prems"(1)] fl_nowrap_tl [OF "1.prems"(2)] by simp
      moreover have "\<forall>b \<in> set (gc_coalesce_loop (nxt # rest)). blk_at current + blk_size current < blk_at b"
      proof
        fix b assume "b \<in> set (gc_coalesce_loop (nxt # rest))"
        then have "blk_at b \<in> blk_at ` set (nxt # rest)"
          using gc_coalesce_loop_starts [of "nxt # rest"] by blast
        then obtain c where "c \<in> set (nxt # rest)" "blk_at b = blk_at c" by auto
        moreover have "blk_at current + blk_size current < blk_at nxt"
          using "1.prems"(1) False by (simp add: fl_ordered_def)
        moreover have "\<forall>c \<in> set rest. blk_at nxt \<le> blk_at c"
          using "1.prems"(1) by (auto simp: fl_ordered_def)
        ultimately show "blk_at current + blk_size current < blk_at b" by auto
      qed
      ultimately show ?thesis
        using False by (simp add: fl_separated_def)
    qed
  qed (simp_all add: fl_separated_def)
qed

lemma gc_alloc_loop_result:
  assumes "gc_alloc_loop t fl = (p, fl')"
    and "\<forall>b \<in> set fl. 0 < blk_at b"
    and "\<forall>b \<in> set fl. blk_size b + sizeof_gc_free_block_t + GC_ALIGNMENT < SIZE_MAX_plus_1"
  shows "(p = 0 \<and> fl' = fl \<and> (\<forall>b \<in> set fl. blk_size b < t)) \<or>
         (\<exists>pre b post. fl = pre @ b # post \<and> p = blk_at b \<and> t \<le> blk_size b \<and>
            (\<forall>c \<in> set pre. blk_size c < t) \<and>
            fl' = pre @ (if t + sizeof_gc_free_block_t + GC_ALIGNMENT \<le> blk_size b
                         then [\<lparr>blk_at = blk_at b + t, blk_size = blk_size b - t\<rparr>] else []) @ post)"
  using assms
proof (induction fl arbitrary: p fl')
  case Nil
  then show ?case by simp
next
  case (Cons block rest)
  show ?case
  proof (cases "t \<le> blk_size block")
    case True
    have "\<exists>pre b post. block # rest = pre @ b # post \<and> p = blk_at b \<and> t \<le> blk_size b \<and>
            (\<forall>c \<in> set pre. blk_size c < t) \<and>
            fl' = pre @ (if t + sizeof_gc_free_block_t + GC_ALIGNMENT \<le> blk_size b
                         then [\<lparr>blk_at = blk_at b + t, blk_size = blk_size b - t\<rparr>] else []) @ post"
      apply (rule exI [of _ "[]"], rule exI [of _ block], rule exI [of _ rest])
      using Cons.prems(1,3) True by (auto split: if_splits)
    then show ?thesis by blast
  next
    case False
    obtain q rest' where r: "gc_alloc_loop t rest = (q, rest')" by fastforce
    have eq: "p = q" "fl' = block # rest'"
      using Cons.prems(1) False r by auto
    from Cons.IH [OF r] Cons.prems(2,3)
    consider (none) "q = 0" "rest' = rest" "\<forall>b \<in> set rest. blk_size b < t"
      | (some) pre b post where "rest = pre @ b # post" "q = blk_at b" "t \<le> blk_size b"
          "\<forall>c \<in> set pre. blk_size c < t"
          "rest' = pre @ (if t + sizeof_gc_free_block_t + GC_ALIGNMENT \<le> blk_size b
                         then [\<lparr>blk_at = blk_at b + t, blk_size = blk_size b - t\<rparr>] else []) @ post"
      by auto
    then show ?thesis
    proof cases
      case none
      then show ?thesis using eq False by auto
    next
      case some
      have "\<exists>pre b post. block # rest = pre @ b # post \<and> p = blk_at b \<and> t \<le> blk_size b \<and>
            (\<forall>c \<in> set pre. blk_size c < t) \<and>
            fl' = pre @ (if t + sizeof_gc_free_block_t + GC_ALIGNMENT \<le> blk_size b
                         then [\<lparr>blk_at = blk_at b + t, blk_size = blk_size b - t\<rparr>] else []) @ post"
        apply (rule exI [of _ "block # pre"], rule exI [of _ b], rule exI [of _ post])
        using some eq False by auto
      then show ?thesis by blast
    qed
  qed
qed

lemma map_clear_update:
  "k < length objs \<Longrightarrow>
   map (\<lambda>obj. obj\<lparr>marked := False\<rparr>) (objs[k := (objs ! k)\<lparr>marked := True\<rparr>])
     = map (\<lambda>obj. obj\<lparr>marked := False\<rparr>) objs"
  by (simp add: map_update list_eq_iff_nth_eq nth_list_update)

lemma clear_marks_set_marked:
  "k < length (objects s) \<Longrightarrow> clear_marks (set_marked k s) = clear_marks s"
  by (simp add: clear_marks_def set_marked_def map_clear_update)

lemma gc_is_pointer_clear_marks [simp]:
  "gc_is_pointer (clear_marks s) p = gc_is_pointer s p"
  by (simp add: gc_is_pointer_def clear_marks_def)

lemma gc_mark_clear_marks:
  "clear_marks (gc_mark_object ptr s) = clear_marks s"
  "clear_marks (gc_mark_object_loop d i n s) = clear_marks s"
proof (induction ptr s and d i n s rule: gc_mark_object_gc_mark_object_loop.induct)
  case (1 ptr s)
  show ?case
  proof (cases "gc_is_pointer s ptr")
    case False
    then show ?thesis by (simp add: gc_mark_object.simps [of ptr s])
  next
    case inheap: True
    show ?thesis
    proof (cases "gc_find_object_containing s ptr")
      case None
      with inheap show ?thesis by (simp add: gc_mark_object.simps [of ptr s])
    next
      case (Some k)
      show ?thesis
      proof (cases "marked (objects s ! k)")
        case True
        with inheap Some show ?thesis by (simp add: gc_mark_object.simps [of ptr s])
      next
        case False
        have "clear_marks (gc_mark_object ptr s) =
              clear_marks (gc_mark_object_loop (data (objects s ! k)) 0
                  (obj_size (objects s ! k) div sizeof_uintptr_t) (set_marked k s))"
          using inheap Some False by (simp add: gc_mark_object.simps [of ptr s])
        also have "\<dots> = clear_marks (set_marked k s)"
          using 1 inheap Some False by simp
        also have "\<dots> = clear_marks s"
          by (rule clear_marks_set_marked [OF gc_find_object_containing_bound [OF Some]])
        finally show ?thesis .
      qed
    qed
  qed
next
  case (2 d i n s)
  show ?case
  proof (cases "i < n")
    case False
    then show ?thesis by (simp add: gc_mark_object_loop.simps [of d i n s])
  next
    case True
    show ?thesis
    proof (cases "gc_is_valid_pointer s (mem s (d + sizeof_uintptr_t * i))")
      case False
      with 2(3) True show ?thesis by (simp add: gc_mark_object_loop.simps [of d i n s])
    next
      case valid: True
      have "clear_marks (gc_mark_object_loop d i n s) =
            clear_marks (gc_mark_object_loop d (Suc i) n
               (gc_mark_object (mem s (d + sizeof_uintptr_t * i)) s))"
        using True valid by (simp add: gc_mark_object_loop.simps [of d i n s])
      also have "\<dots> = clear_marks (gc_mark_object (mem s (d + sizeof_uintptr_t * i)) s)"
        using 2(2) True valid by simp
      also have "\<dots> = clear_marks s"
        using 2(1) True valid by simp
      finally show ?thesis .
    qed
  qed
qed

lemma gc_mark_roots_loop_clear_marks:
  "clear_marks (gc_mark_roots_loop ws s) = clear_marks s"
  by (induction ws arbitrary: s) (simp_all add: gc_mark_clear_marks)

lemma clear_marks_fields:
  "heap (clear_marks s) = heap s" "heap_size (clear_marks s) = heap_size s"
  "heap_used (clear_marks s) = heap_used s" "free_list (clear_marks s) = free_list s"
  "initialized (clear_marks s) = initialized s" "mem (clear_marks s) = mem s"
  "collection_count (clear_marks s) = collection_count s"
  "allocation_count (clear_marks s) = allocation_count s"
  "stack_bottom (clear_marks s) = stack_bottom s"
  "stack_top (clear_marks s) = stack_top s" "registers (clear_marks s) = registers s"
  "objects (clear_marks s) = map (\<lambda>obj. obj\<lparr>marked := False\<rparr>) (objects s)"
  by (simp_all add: clear_marks_def)

lemma unmarked_simps [simp]:
  "unmarked [] = []"
  "unmarked (obj # objs) = (if marked obj then unmarked objs else obj # unmarked objs)"
  by (simp_all add: unmarked_def)

lemma size_t_minus:
  assumes "b \<le> a" "a < (m::nat)"
  shows "(a + m - b) mod m = a - b"
proof -
  have "a + m - b = (a - b) + m" using assms by simp
  then have "(a + m - b) mod m = (a - b) mod m" by simp
  then show ?thesis using assms by simp
qed

lemma gc_sweep_loop_closed:
  assumes "\<forall>obj \<in> set objs. \<not> marked obj \<longrightarrow>
             sizeof_gc_free_block_t \<le> obj_total_size obj \<and> obj_total_size obj < SIZE_MAX_plus_1"
    and "sum_list (map obj_total_size (unmarked objs)) \<le> heap_used s"
    and "heap_used s < SIZE_MAX_plus_1"
  shows "gc_sweep_loop objs s =
           (map (\<lambda>obj. obj\<lparr>marked := False\<rparr>) (filter marked objs),
            s\<lparr>free_list := fold (\<lambda>obj. gc_add_to_freelist_loop (obj_block obj))
                               (unmarked objs) (free_list s),
              heap_used := heap_used s - sum_list (map obj_total_size (unmarked objs))\<rparr>)"
  using assms
proof (induction objs arbitrary: s)
  case Nil
  then show ?case by simp
next
  case (Cons obj rest)
  show ?case
  proof (cases "marked obj")
    case True
    then show ?thesis using Cons by simp
  next
    case False
    let ?t = "obj_total_size obj"
    have t: "(sizeof_gc_object_t + obj_size obj) mod SIZE_MAX_plus_1 = ?t"
      "sizeof_gc_free_block_t \<le> ?t" "?t \<le> heap_used s"
      using Cons.prems False by (simp_all add: obj_total_size_def)
    let ?s2 = "s\<lparr>free_list := gc_add_to_freelist_loop (obj_block obj) (free_list s),
                 heap_used := heap_used s - ?t\<rparr>"
    have sub: "(heap_used s + SIZE_MAX_plus_1 - ?t) mod SIZE_MAX_plus_1 = heap_used s - ?t"
      using t(3) Cons.prems(3) by (rule size_t_minus)
    have step: "gc_sweep_loop (obj # rest) s = gc_sweep_loop rest ?s2"
      using False t sub
      by (simp add: Let_def gc_add_to_freelist_def obj_block_def)
    have "gc_sweep_loop rest ?s2 =
           (map (\<lambda>obj. obj\<lparr>marked := False\<rparr>) (filter marked rest),
            ?s2\<lparr>free_list := fold (\<lambda>obj. gc_add_to_freelist_loop (obj_block obj))
                               (unmarked rest) (free_list ?s2),
              heap_used := heap_used ?s2 - sum_list (map obj_total_size (unmarked rest))\<rparr>)"
      using Cons.prems False by (intro Cons.IH) auto
    then show ?thesis
      using step False by simp
  qed
qed

lemma gc_sweep_loop_initialized:
  "gc_sweep_loop objs s = (kept, s') \<Longrightarrow> initialized s' = initialized s"
proof (induction objs arbitrary: s kept s')
  case Nil
  then show ?case by simp
next
  case (Cons obj rest)
  show ?case
  proof (cases "marked obj")
    case True
    then show ?thesis using Cons by (auto split: prod.splits)
  next
    case False
    let ?t = "(sizeof_gc_object_t + obj_size obj) mod SIZE_MAX_plus_1"
    let ?s1 = "gc_add_to_freelist (obj_at obj) ?t s"
    let ?s2 = "?s1\<lparr>heap_used := (heap_used ?s1 + SIZE_MAX_plus_1 - ?t) mod SIZE_MAX_plus_1\<rparr>"
    have "gc_sweep_loop rest ?s2 = (kept, s')"
      using Cons.prems False by (simp add: Let_def)
    then have "initialized s' = initialized ?s2" by (rule Cons.IH)
    then show ?thesis by (simp add: gc_add_to_freelist_def)
  qed
qed

lemma sum_gc_add_to_freelist_loop:
  "sum_list (map blk_size (gc_add_to_freelist_loop nb fl)) = blk_size nb + sum_list (map blk_size fl)"
  by (induction fl) auto

lemma fold_add_to_freelist:
  assumes "fl_ordered fl" "\<forall>b \<in> set fl. 0 < blk_size b" "\<forall>b \<in> set bs. 0 < blk_size b"
    and "sorted_wrt blk_apart bs"
    and "\<forall>x \<in> set bs. \<forall>b \<in> set fl. blk_apart x b"
  shows "fl_ordered (fold gc_add_to_freelist_loop bs fl)
       \<and> set (fold gc_add_to_freelist_loop bs fl) = set bs \<union> set fl
       \<and> sum_list (map blk_size (fold gc_add_to_freelist_loop bs fl))
           = sum_list (map blk_size bs) + sum_list (map blk_size fl)"
  using assms
proof (induction bs arbitrary: fl)
  case Nil
  then show ?case by simp
next
  case (Cons nb bs)
  let ?fl = "gc_add_to_freelist_loop nb fl"
  have 1: "fl_ordered ?fl"
    using Cons.prems by (intro fl_ordered_gc_add_to_freelist_loop) auto
  have 2: "\<forall>b \<in> set ?fl. 0 < blk_size b"
    using Cons.prems by (simp add: set_gc_add_to_freelist_loop)
  have 3: "\<forall>x \<in> set bs. \<forall>b \<in> set ?fl. blk_apart x b"
    using Cons.prems(4,5) by (auto simp: set_gc_add_to_freelist_loop spans_apart_def)
  have "fl_ordered (fold gc_add_to_freelist_loop bs ?fl)
       \<and> set (fold gc_add_to_freelist_loop bs ?fl) = set bs \<union> set ?fl
       \<and> sum_list (map blk_size (fold gc_add_to_freelist_loop bs ?fl))
           = sum_list (map blk_size bs) + sum_list (map blk_size ?fl)"
    using 1 2 3 Cons.prems(3,4) by (intro Cons.IH) simp_all
  then show ?case
    by (simp add: set_gc_add_to_freelist_loop sum_gc_add_to_freelist_loop)
qed

lemma sum_list_marked_split:
  "sum_list (map f (filter marked objs)) + sum_list (map f (unmarked objs))
     = (sum_list (map f objs) :: nat)"
  by (induction objs) auto

lemma sorted_wrt_sym_set:
  assumes "sorted_wrt P xs" "\<And>x y. P x y \<Longrightarrow> P y x" "x \<in> set xs" "y \<in> set xs" "x \<noteq> y"
  shows "P x y"
  using assms(1,3,4,5)
proof (induction xs)
  case Nil
  then show ?case by simp
next
  case (Cons a xs)
  then show ?case using assms(2) by auto
qed

lemma spans_apart_sym: "spans_apart a n b m \<Longrightarrow> spans_apart b m a n"
  by (auto simp: spans_apart_def)

lemma obj_total_size_marked [simp]:
  "obj_total_size (obj\<lparr>marked := m\<rparr>) = obj_total_size obj"
  by (simp add: obj_total_size_def)

lemma gc_layout_clear_marks: "gc_layout (clear_marks s) = gc_layout s"
  by (simp add: gc_layout_def clear_marks_def sorted_wrt_map obj_in_def comp_def)

lemma obj_total_size_pos: "sizeof_gc_free_block_t \<le> obj_total_size obj" "0 < obj_total_size obj"
  by (simp_all add: obj_total_size_def sizeof_gc_object_t_def sizeof_gc_free_block_t_def)

lemma blk_in_merge:
  "blk_in lo hi b \<Longrightarrow> blk_in lo hi c \<Longrightarrow> blk_at b + blk_size b = blk_at c \<Longrightarrow>
   blk_in lo hi (b\<lparr>blk_size := blk_size b + blk_size c\<rparr>)"
  by (auto simp: blk_in_def)

lemma obj_blk_apart_merge:
  "obj_blk_apart obj b \<Longrightarrow> obj_blk_apart obj c \<Longrightarrow> blk_at b + blk_size b = blk_at c \<Longrightarrow>
   obj_blk_apart obj (b\<lparr>blk_size := blk_size b + blk_size c\<rparr>)"
  using obj_total_size_pos(2) [of obj] by (auto simp: spans_apart_def)

lemma gc_layoutD:
  assumes "gc_layout s"
  shows "0 < heap s" "heap_size s = GC_HEAP_SIZE" "heap s + heap_size s \<le> SIZE_MAX_plus_1"
    and "\<forall>b \<in> set (free_list s). blk_in (heap s) (heap s + heap_size s) b"
    and "fl_ordered (free_list s)"
    and "\<forall>obj \<in> set (objects s). obj_in (heap s) (heap s + heap_size s) obj"
    and "sorted_wrt obj_apart (objects s)"
    and "\<forall>obj \<in> set (objects s). \<forall>b \<in> set (free_list s). obj_blk_apart obj b"
    and "heap_used s = sum_list (map obj_total_size (objects s))"
    and "heap_used s + sum_list (map blk_size (free_list s)) \<le> heap_size s"
  using assms unfolding gc_layout_def by blast+

lemma gc_sweep_closed:
  assumes L: "gc_layout s"
  shows "gc_sweep s =
           s\<lparr>objects := map (\<lambda>obj. obj\<lparr>marked := False\<rparr>) (filter marked (objects s)),
             free_list := swept_free_list s,
             heap_used := heap_used s - sum_list (map obj_total_size (unmarked (objects s)))\<rparr>"
proof -
  have tot: "\<forall>obj \<in> set (objects s). \<not> marked obj \<longrightarrow>
               sizeof_gc_free_block_t \<le> obj_total_size obj \<and> obj_total_size obj < SIZE_MAX_plus_1"
    using L by (auto simp: gc_layout_def obj_in_def obj_total_size_pos)
  have "sum_list (map obj_total_size (unmarked (objects s))) \<le> sum_list (map obj_total_size (objects s))"
    using sum_list_marked_split [of obj_total_size "objects s"] by linarith
  then have le: "sum_list (map obj_total_size (unmarked (objects s))) \<le> heap_used s"
    using L by (simp add: gc_layout_def)
  have hu: "heap_used s < SIZE_MAX_plus_1"
    using L by (simp add: gc_layout_def GC_HEAP_SIZE_def SIZE_MAX_plus_1_def)
  show ?thesis
    unfolding gc_sweep_def gc_sweep_loop_closed [OF tot le hu]
    by (simp add: gc_coalesce_freelist_def swept_free_list_def fold_map comp_def)
qed

lemma swept_free_list_props:
  assumes L: "gc_layout s"
  defines "lo \<equiv> heap s" and "hi \<equiv> heap s + heap_size s"
  shows "fl_separated (swept_free_list s)"
    and "\<forall>b \<in> set (swept_free_list s). blk_in lo hi b"
    and "\<forall>obj \<in> set (filter marked (objects s)). \<forall>b \<in> set (swept_free_list s). obj_blk_apart obj b"
    and "sum_list (map blk_size (swept_free_list s))
           = sum_list (map obj_total_size (unmarked (objects s))) + sum_list (map blk_size (free_list s))"
    and "\<And>b. b \<in> set (free_list s) \<Longrightarrow> \<exists>c \<in> set (swept_free_list s). blk_size b \<le> blk_size c"
proof -
  let ?bs = "map obj_block (unmarked (objects s))"
  let ?fl1 = "fold gc_add_to_freelist_loop ?bs (free_list s)"
  have objs_in: "\<forall>obj \<in> set (objects s). obj_in lo hi obj"
    and blks_in: "\<forall>b \<in> set (free_list s). blk_in lo hi b"
    and lohi: "0 < lo" "hi \<le> SIZE_MAX_plus_1"
    using gc_layoutD [OF L] unfolding lo_def hi_def by blast+
  note D = gc_layoutD [OF L]
  have a1: "fl_ordered (free_list s)" by (rule D(5))
  have a2: "\<forall>b \<in> set (free_list s). 0 < blk_size b"
    using blks_in by (auto simp: blk_in_def sizeof_gc_free_block_t_def)
  have a3: "\<forall>b \<in> set ?bs. 0 < blk_size b"
    by (auto simp: obj_block_def obj_total_size_pos)
  have "sorted_wrt obj_apart (unmarked (objects s))"
    unfolding unmarked_def using D(7) by (rule sorted_wrt_filter)
  then have a4: "sorted_wrt blk_apart ?bs"
    by (simp add: sorted_wrt_map obj_block_def)
  have a5: "\<forall>x \<in> set ?bs. \<forall>b \<in> set (free_list s). blk_apart x b"
    using D(8) by (auto simp: obj_block_def unmarked_def)
  note f = fold_add_to_freelist [OF a1 a2 a3 a4 a5]
  have set1: "set ?fl1 = set ?bs \<union> set (free_list s)" using f by blast
  have in1: "\<forall>b \<in> set ?fl1. blk_in lo hi b"
    unfolding set1 using blks_in objs_in
    by (auto simp: obj_block_def blk_in_def obj_in_def unmarked_def obj_total_size_pos)
  then have nowrap: "fl_nowrap ?fl1"
    using lohi by (auto simp: fl_nowrap_def blk_in_def)
  show "fl_separated (swept_free_list s)"
    unfolding swept_free_list_def
    using f nowrap by (intro gc_coalesce_loop_ordered_separated) blast+
  show "\<forall>b \<in> set (swept_free_list s). blk_in lo hi b"
    unfolding swept_free_list_def
    using nowrap in1 by (rule gc_coalesce_loop_all) (rule blk_in_merge)
  have ap1: "\<forall>b \<in> set ?fl1. \<forall>obj \<in> set (filter marked (objects s)). obj_blk_apart obj b"
  proof (intro ballI)
    fix b obj
    assume b: "b \<in> set ?fl1" and obj: "obj \<in> set (filter marked (objects s))"
    from b consider (old) "b \<in> set (free_list s)" | (new) "b \<in> set ?bs"
      unfolding set1 by blast
    then show "obj_blk_apart obj b"
    proof cases
      case old
      then show ?thesis using D(8) obj by auto
    next
      case new
      then obtain x where x: "x \<in> set (objects s)" "\<not> marked x" "b = obj_block x"
        by (auto simp: unmarked_def)
      have "obj_apart obj x"
      proof (rule sorted_wrt_sym_set [of obj_apart "objects s"])
        show "sorted_wrt obj_apart (objects s)" by (rule D(7))
        show "obj_apart v u" if "obj_apart u v" for u v using that by (rule spans_apart_sym)
        show "obj \<in> set (objects s)" using obj by simp
        show "x \<in> set (objects s)" by (rule x(1))
        show "obj \<noteq> x" using obj x(2) by auto
      qed
      then show ?thesis by (simp add: x(3) obj_block_def)
    qed
  qed
  have "\<forall>b \<in> set (gc_coalesce_loop ?fl1). \<forall>obj \<in> set (filter marked (objects s)). obj_blk_apart obj b"
    using nowrap ap1
  proof (rule gc_coalesce_loop_all)
    fix b c
    assume "\<forall>obj \<in> set (filter marked (objects s)). obj_blk_apart obj b"
      "\<forall>obj \<in> set (filter marked (objects s)). obj_blk_apart obj c"
      "blk_at b + blk_size b = blk_at c"
    then show "\<forall>obj \<in> set (filter marked (objects s)).
                 obj_blk_apart obj (b\<lparr>blk_size := blk_size b + blk_size c\<rparr>)"
      using obj_blk_apart_merge by blast
  qed
  then show "\<forall>obj \<in> set (filter marked (objects s)). \<forall>b \<in> set (swept_free_list s). obj_blk_apart obj b"
    unfolding swept_free_list_def by blast
  have "sum_list (map blk_size ?fl1) = sum_list (map blk_size ?bs) + sum_list (map blk_size (free_list s))"
    using f by blast
  moreover have "sum_list (map blk_size ?bs) = sum_list (map obj_total_size (unmarked (objects s)))"
    by (simp add: comp_def obj_block_def)
  ultimately show "sum_list (map blk_size (swept_free_list s))
           = sum_list (map obj_total_size (unmarked (objects s))) + sum_list (map blk_size (free_list s))"
    unfolding swept_free_list_def using gc_coalesce_loop_sum [OF nowrap] by simp
  show "\<exists>c \<in> set (swept_free_list s). blk_size b \<le> blk_size c" if "b \<in> set (free_list s)" for b
  proof -
    have "b \<in> set ?fl1" using that set1 by blast
    then show ?thesis
      unfolding swept_free_list_def by (rule gc_coalesce_loop_grows [OF nowrap])
  qed
qed

lemma gc_sweep_layout:
  assumes L: "gc_layout s"
  shows "gc_layout (gc_sweep s)"
    and "fl_separated (free_list (gc_sweep s))"
    and "\<forall>obj \<in> set (objects (gc_sweep s)). \<not> marked obj"
    and "initialized (gc_sweep s) = initialized s"
    and "heap_used (gc_sweep s) + sum_list (map blk_size (free_list (gc_sweep s)))
           = heap_used s + sum_list (map blk_size (free_list s))"
proof -
  note D = gc_layoutD [OF L]
  note P = swept_free_list_props [OF L]
  let ?kept = "map (\<lambda>obj. obj\<lparr>marked := False\<rparr>) (filter marked (objects s))"
  let ?gone = "sum_list (map obj_total_size (unmarked (objects s)))"
  let ?s' = "s\<lparr>objects := ?kept, free_list := swept_free_list s, heap_used := heap_used s - ?gone\<rparr>"
  have eq: "gc_sweep s = ?s'" by (rule gc_sweep_closed [OF L])
  have split: "sum_list (map obj_total_size (filter marked (objects s))) + ?gone = heap_used s"
    using sum_list_marked_split [of obj_total_size "objects s"] D(9) by simp
  have kept_sum: "sum_list (map obj_total_size ?kept) = heap_used s - ?gone"
    using split by (simp add: comp_def)
  have 1: "\<forall>b \<in> set (swept_free_list s). blk_in (heap s) (heap s + heap_size s) b"
    by (rule P(2))
  have 2: "fl_ordered (swept_free_list s)"
    by (rule fl_separated_ordered [OF P(1)])
  have 3: "\<forall>obj \<in> set ?kept. obj_in (heap s) (heap s + heap_size s) obj"
    using D(6) by (auto simp: obj_in_def)
  have "sorted_wrt obj_apart (filter marked (objects s))"
    using D(7) by (rule sorted_wrt_filter)
  then have 4: "sorted_wrt obj_apart ?kept"
    by (simp add: sorted_wrt_map)
  have 5: "\<forall>obj \<in> set ?kept. \<forall>b \<in> set (swept_free_list s). obj_blk_apart obj b"
    using P(3) by auto
  have 6: "heap_used s - ?gone + sum_list (map blk_size (swept_free_list s)) \<le> heap_size s"
    using P(4) split D(10) by linarith
  show "gc_layout (gc_sweep s)"
    unfolding eq gc_layout_def using D(1-3) 1 2 3 4 5 6 kept_sum by simp
  show "fl_separated (free_list (gc_sweep s))"
    unfolding eq using P(1) by simp
  show "\<forall>obj \<in> set (objects (gc_sweep s)). \<not> marked obj"
    unfolding eq by simp
  show "initialized (gc_sweep s) = initialized s"
    unfolding eq by simp
  show "heap_used (gc_sweep s) + sum_list (map blk_size (free_list (gc_sweep s)))
           = heap_used s + sum_list (map blk_size (free_list s))"
    unfolding eq using P(4) split by simp
qed

lemma gc_mark_roots_clear_marks:
  "clear_marks (gc_mark_roots env s) =
   clear_marks (s\<lparr>registers := env_regs env, stack_top := env_sp env\<rparr>)"
  by (simp add: gc_mark_roots_def Let_def gc_mark_roots_loop_clear_marks)

lemma gc_layout_registers [simp]:
  "gc_layout (s\<lparr>registers := r\<rparr>) = gc_layout s"
  "gc_layout (s\<lparr>stack_top := t\<rparr>) = gc_layout s"
  "gc_layout (s\<lparr>collection_count := c\<rparr>) = gc_layout s"
  "gc_layout (s\<lparr>mem := m\<rparr>) = gc_layout s"
  by (simp_all add: gc_layout_def)

lemma gc_mark_roots_layout: "gc_layout (gc_mark_roots env s) = gc_layout s"
proof -
  have "gc_layout (gc_mark_roots env s) = gc_layout (clear_marks (gc_mark_roots env s))"
    by (simp add: gc_layout_clear_marks)
  also have "\<dots> = gc_layout (s\<lparr>registers := env_regs env, stack_top := env_sp env\<rparr>)"
    by (simp only: gc_mark_roots_clear_marks gc_layout_clear_marks)
  finally show ?thesis by simp
qed

lemma gc_mark_roots_fields:
  "heap (gc_mark_roots env s) = heap s" "heap_size (gc_mark_roots env s) = heap_size s"
  "heap_used (gc_mark_roots env s) = heap_used s" "free_list (gc_mark_roots env s) = free_list s"
  "initialized (gc_mark_roots env s) = initialized s" "mem (gc_mark_roots env s) = mem s"
  "collection_count (gc_mark_roots env s) = collection_count s"
  "allocation_count (gc_mark_roots env s) = allocation_count s"
  "map (\<lambda>obj. obj\<lparr>marked := False\<rparr>) (objects (gc_mark_roots env s))
     = map (\<lambda>obj. obj\<lparr>marked := False\<rparr>) (objects s)"
  using arg_cong [OF gc_mark_roots_clear_marks [of env s], of heap]
    arg_cong [OF gc_mark_roots_clear_marks [of env s], of heap_size]
    arg_cong [OF gc_mark_roots_clear_marks [of env s], of heap_used]
    arg_cong [OF gc_mark_roots_clear_marks [of env s], of free_list]
    arg_cong [OF gc_mark_roots_clear_marks [of env s], of initialized]
    arg_cong [OF gc_mark_roots_clear_marks [of env s], of mem]
    arg_cong [OF gc_mark_roots_clear_marks [of env s], of collection_count]
    arg_cong [OF gc_mark_roots_clear_marks [of env s], of allocation_count]
    arg_cong [OF gc_mark_roots_clear_marks [of env s], of objects]
  by (simp_all add: clear_marks_def)

lemma gc_collect_invariant:
  assumes "gc_invariant s"
  shows "gc_invariant (gc_collect env s)"
proof (cases "initialized s")
  case False
  then show ?thesis using assms by (simp add: gc_collect_def)
next
  case True
  let ?s1 = "gc_mark_roots env s"
  have L1: "gc_layout ?s1"
    using assms True by (simp add: gc_invariant_def gc_mark_roots_layout)
  note S = gc_sweep_layout [OF L1]
  have "initialized (gc_sweep ?s1)"
    using S(4) True by (simp add: gc_mark_roots_fields)
  then show ?thesis
    using True S(1,2,3) by (simp add: gc_collect_def Let_def gc_invariant_def)
qed

lemma gc_alloc_loop_props:
  assumes a: "gc_alloc_loop t fl = (p, fl')" and p: "p \<noteq> 0"
    and pos: "\<forall>b \<in> set fl. 0 < blk_at b"
    and small: "\<forall>b \<in> set fl. blk_size b + sizeof_gc_free_block_t + GC_ALIGNMENT < SIZE_MAX_plus_1"
    and ord: "fl_ordered fl"
    and inside: "\<forall>b \<in> set fl. blk_in lo hi b"
  shows "\<exists>b \<in> set fl. p = blk_at b \<and> t \<le> blk_size b"
    and "fl_ordered fl'"
    and "fl_separated fl \<Longrightarrow> fl_separated fl'"
    and "\<forall>x \<in> set fl'. blk_in lo hi x"
    and "\<forall>x \<in> set fl'. spans_apart p t (blk_at x) (blk_size x)"
    and "\<forall>x \<in> set fl'. \<exists>y \<in> set fl. blk_at y \<le> blk_at x \<and> blk_at x + blk_size x \<le> blk_at y + blk_size y"
    and "sum_list (map blk_size fl') + t \<le> sum_list (map blk_size fl)"
proof -
  let ?c = "sizeof_gc_free_block_t + GC_ALIGNMENT"
  from gc_alloc_loop_result [OF a pos small] p
  obtain pre b post where
    fl: "fl = pre @ b # post" and pb: "p = blk_at b" and tb: "t \<le> blk_size b"
    and fl': "fl' = pre @ (if t + sizeof_gc_free_block_t + GC_ALIGNMENT \<le> blk_size b
                         then [\<lparr>blk_at = blk_at b + t, blk_size = blk_size b - t\<rparr>] else []) @ post"
    by blast
  let ?r = "\<lparr>blk_at = blk_at b + t, blk_size = blk_size b - t\<rparr>"
  show "\<exists>b \<in> set fl. p = blk_at b \<and> t \<le> blk_size b"
    using fl pb tb by auto
  have bpos: "0 < blk_size b" using inside fl by (auto simp: blk_in_def sizeof_gc_free_block_t_def)
  have pre_b: "\<forall>x \<in> set pre. blk_at x + blk_size x \<le> blk_at b"
    and b_post: "\<forall>y \<in> set post. blk_at b + blk_size b \<le> blk_at y"
    and pre_post: "\<forall>x \<in> set pre. \<forall>y \<in> set post. blk_at x + blk_size x \<le> blk_at y"
    and o_pre: "sorted_wrt (\<lambda>b c. blk_at b + blk_size b \<le> blk_at c) pre"
    and o_post: "sorted_wrt (\<lambda>b c. blk_at b + blk_size b \<le> blk_at c) post"
    using ord unfolding fl fl_ordered_def by (auto simp: sorted_wrt_append)
  show "fl_ordered fl'"
    unfolding fl' fl_ordered_def using pre_b b_post pre_post o_pre o_post tb
    by (auto simp: sorted_wrt_append)
  show "fl_separated fl'" if "fl_separated fl"
  proof -
    have "\<forall>x \<in> set pre. blk_at x + blk_size x < blk_at b"
      and "\<forall>y \<in> set post. blk_at b + blk_size b < blk_at y"
      and "\<forall>x \<in> set pre. \<forall>y \<in> set post. blk_at x + blk_size x < blk_at y"
      and "sorted_wrt (\<lambda>b c. blk_at b + blk_size b < blk_at c) pre"
      and "sorted_wrt (\<lambda>b c. blk_at b + blk_size b < blk_at c) post"
      using that unfolding fl fl_separated_def by (auto simp: sorted_wrt_append)
    then show ?thesis
      unfolding fl' fl_separated_def using tb by (auto simp: sorted_wrt_append)
  qed
  have bin: "blk_in lo hi b" using inside fl by simp
  have rin: "blk_in lo hi ?r" if "t + sizeof_gc_free_block_t + GC_ALIGNMENT \<le> blk_size b"
    using that bin by (auto simp: blk_in_def GC_ALIGNMENT_def)
  show "\<forall>x \<in> set fl'. blk_in lo hi x"
    unfolding fl' using inside rin by (auto simp: fl)
  show "\<forall>x \<in> set fl'. spans_apart p t (blk_at x) (blk_size x)"
    unfolding fl' pb using pre_b b_post tb by (auto simp: spans_apart_def)
  show "\<forall>x \<in> set fl'. \<exists>y \<in> set fl. blk_at y \<le> blk_at x \<and> blk_at x + blk_size x \<le> blk_at y + blk_size y"
  proof
    fix x assume "x \<in> set fl'"
    then consider "x \<in> set pre \<union> set post" | "x = ?r" "t + sizeof_gc_free_block_t + GC_ALIGNMENT \<le> blk_size b"
      unfolding fl' by (auto split: if_splits)
    then show "\<exists>y \<in> set fl. blk_at y \<le> blk_at x \<and> blk_at x + blk_size x \<le> blk_at y + blk_size y"
    proof cases
      case 1
      then have "x \<in> set fl" unfolding fl by auto
      then show ?thesis by blast
    next
      case 2
      have "b \<in> set fl" unfolding fl by simp
      moreover have "blk_at b \<le> blk_at x \<and> blk_at x + blk_size x \<le> blk_at b + blk_size b"
        using 2 tb by simp
      ultimately show ?thesis by blast
    qed
  qed
  show "sum_list (map blk_size fl') + t \<le> sum_list (map blk_size fl)"
    unfolding fl fl' using tb by simp
qed

lemma gc_alloc_loop_fails:
  assumes "gc_alloc_loop t fl = (0, fl')" "\<forall>b \<in> set fl. 0 < blk_at b"
  shows "fl' = fl \<and> (\<forall>b \<in> set fl. blk_size b < t)"
  using assms
proof (induction fl arbitrary: fl')
  case Nil
  then show ?case by simp
next
  case (Cons block rest)
  have small: "\<not> t \<le> blk_size block"
    using Cons.prems by (auto split: if_splits)
  obtain q rest' where r: "gc_alloc_loop t rest = (q, rest')" by fastforce
  then have "q = 0" "fl' = block # rest'"
    using Cons.prems(1) small by auto
  then show ?case
    using Cons.IH [of rest'] r Cons.prems(2) small by auto
qed

lemma gc_alloc_loop_finds:
  assumes "b \<in> set fl" "t \<le> blk_size b" "\<forall>b \<in> set fl. 0 < blk_at b"
  shows "fst (gc_alloc_loop t fl) \<noteq> 0"
  using assms
proof (induction fl)
  case Nil
  then show ?case by simp
next
  case (Cons block rest)
  show ?case
  proof (cases "t \<le> blk_size block")
    case True
    then show ?thesis using Cons.prems(3) by simp
  next
    case False
    then have "b \<in> set rest" using Cons.prems by auto
    then have "fst (gc_alloc_loop t rest) \<noteq> 0"
      using Cons.IH Cons.prems by simp
    then show ?thesis using False by (simp add: split_beta)
  qed
qed

lemma gc_init_invariant:
  assumes "gc_invariant s" "mmap_ok mm" "gc_init mm s = Some s'"
  shows "gc_invariant s'" "initialized s'"
proof -
  show "initialized s'"
    using assms(3) by (auto simp: gc_init_def split: if_splits option.splits)
  show "gc_invariant s'"
  proof (cases "initialized s")
    case True
    then show ?thesis using assms by (simp add: gc_init_def)
  next
    case False
    then obtain h where h: "mm = Some h" "0 < h" "h + GC_HEAP_SIZE \<le> SIZE_MAX_plus_1"
      and s': "s' = s\<lparr>heap := h, heap_size := GC_HEAP_SIZE, heap_used := 0, objects := [],
                  collection_count := 0, allocation_count := 0,
                  free_list := [\<lparr>blk_at = h, blk_size = GC_HEAP_SIZE\<rparr>],
                  initialized := True\<rparr>"
      using assms(2,3) by (auto simp: gc_init_def mmap_ok_def split: option.splits)
    show ?thesis
      unfolding s' gc_invariant_def gc_layout_def using h(2,3)
      by (simp add: fl_ordered_def fl_separated_def blk_in_def GC_HEAP_SIZE_def
          sizeof_gc_free_block_t_def)
  qed
qed

lemma gc_alloc_from_freelist_fails:
  assumes "gc_alloc_from_freelist t s = (0, s2)" "gc_layout s"
  shows "s2 = s" "\<forall>b \<in> set (free_list s). blk_size b < t"
proof -
  obtain fl' where a: "gc_alloc_loop t (free_list s) = (0, fl')" and s2: "s2 = s\<lparr>free_list := fl'\<rparr>"
    using assms(1) by (auto simp: gc_alloc_from_freelist_def split: prod.splits)
  have pos: "\<forall>b \<in> set (free_list s). 0 < blk_at b"
    using gc_layoutD(1,4) [OF assms(2)] by (auto simp: blk_in_def)
  from gc_alloc_loop_fails [OF a pos]
  show "s2 = s" "\<forall>b \<in> set (free_list s). blk_size b < t"
    using s2 by simp_all
qed

lemma blk_size_le_heap_size:
  assumes "gc_layout s" "b \<in> set (free_list s)"
  shows "blk_size b \<le> GC_HEAP_SIZE" "0 < blk_at b"
  using gc_layoutD(1,2,4) [OF assms(1)] assms(2) by (auto simp: blk_in_def)

lemma gc_malloc_init_object_invariant:
  assumes init: "initialized s" and L: "gc_layout s" and sep: "fl_separated (free_list s)"
    and um: "\<forall>obj \<in> set (objects s). \<not> marked obj"
    and a: "gc_alloc_from_freelist t s = (p, s2)" and p: "p \<noteq> 0"
    and r: "gc_malloc_init_object p sz t s2 = Returns q s'"
  shows "gc_invariant s'" "initialized s'"
    and "q = p + sizeof_gc_object_t"
    and "objects s' = \<lparr>obj_at = p, obj_size = sz, marked = False\<rparr> # objects s"
    and "heap_used s' = heap_used s + sizeof_gc_object_t + sz"
    and "t = sizeof_gc_object_t + sz"
proof -
  note D = gc_layoutD [OF L]
  let ?lo = "heap s" and ?hi = "heap s + heap_size s"
  let ?obj = "\<lparr>obj_at = p, obj_size = sz, marked = False\<rparr>"
  obtain fl' where al: "gc_alloc_loop t (free_list s) = (p, fl')" and s2: "s2 = s\<lparr>free_list := fl'\<rparr>"
    using a by (auto simp: gc_alloc_from_freelist_def split: prod.splits)
  have t: "t = sizeof_gc_object_t + sz"
    using r by (auto simp: gc_malloc_init_object_def split: if_splits)
  have pos: "\<forall>b \<in> set (free_list s). 0 < blk_at b"
    using blk_size_le_heap_size(2) [OF L] by blast
  have small: "\<forall>b \<in> set (free_list s). blk_size b + sizeof_gc_free_block_t + GC_ALIGNMENT < SIZE_MAX_plus_1"
  proof
    fix b assume "b \<in> set (free_list s)"
    then have "blk_size b \<le> GC_HEAP_SIZE" by (rule blk_size_le_heap_size(1) [OF L])
    then show "blk_size b + sizeof_gc_free_block_t + GC_ALIGNMENT < SIZE_MAX_plus_1"
      by (simp add: GC_HEAP_SIZE_def SIZE_MAX_plus_1_def sizeof_gc_free_block_t_def GC_ALIGNMENT_def)
  qed
  note P = gc_alloc_loop_props [OF al p pos small D(5) D(4)]
  obtain b where b: "b \<in> set (free_list s)" "p = blk_at b" "t \<le> blk_size b"
    using P(1) by blast
  have bin: "blk_in ?lo ?hi b" using D(4) b(1) by blast
  have tsum: "t \<le> sum_list (map blk_size (free_list s))"
    using P(7) by linarith
  have nowrap: "(heap_used s + t) mod SIZE_MAX_plus_1 = heap_used s + t"
    using tsum D(10) D(2) by (simp add: GC_HEAP_SIZE_def SIZE_MAX_plus_1_def)
  have s': "s' = s\<lparr>free_list := fl', objects := ?obj # objects s, heap_used := heap_used s + t,
              allocation_count := allocation_count s + 1,
              mem := (\<lambda>a. if data ?obj \<le> a \<and> a < data ?obj + sz then 0 else mem s a)\<rparr>"
    and q: "q = data ?obj"
    using r t nowrap by (auto simp: gc_malloc_init_object_def s2 Let_def cong del: if_weak_cong)
  have tot: "obj_total_size \<lparr>obj_at = a, obj_size = sz, marked = False\<rparr> = t" for a
    by (simp add: obj_total_size_def t)
  have 1: "obj_in ?lo ?hi ?obj"
    using bin b(2,3) by (simp add: obj_in_def blk_in_def tot)
  have 2: "\<forall>obj \<in> set (objects s). obj_apart ?obj obj"
  proof
    fix obj assume "obj \<in> set (objects s)"
    then have "obj_blk_apart obj b" using D(8) b(1) by blast
    then show "obj_apart ?obj obj"
      using b(2,3) by (auto simp: spans_apart_def tot)
  qed
  have 3: "\<forall>obj \<in> set (objects s). \<forall>x \<in> set fl'. obj_blk_apart obj x"
  proof (intro ballI)
    fix obj x assume obj: "obj \<in> set (objects s)" and "x \<in> set fl'"
    then obtain y where y: "y \<in> set (free_list s)" "blk_at y \<le> blk_at x"
      "blk_at x + blk_size x \<le> blk_at y + blk_size y"
      using P(6) by blast
    have "obj_blk_apart obj y" using D(8) obj y(1) by blast
    then show "obj_blk_apart obj x"
      using y(2,3) by (auto simp: spans_apart_def)
  qed
  have 4: "\<forall>x \<in> set fl'. obj_blk_apart ?obj x"
    using P(5) by (simp add: tot)
  have 5: "heap_used s + t + sum_list (map blk_size fl') \<le> heap_size s"
    using P(7) D(10) by linarith
  have lay: "gc_layout s'"
    unfolding s' gc_layout_def
    using D(1-3) P(4) P(2) 1 D(6) 2 D(7) 3 4 5 D(9) by (simp add: tot)
  show "gc_invariant s'"
    unfolding gc_invariant_def using lay P(3) [OF sep] um init by (simp add: s')
  show "initialized s'" using init by (simp add: s')
  show "q = p + sizeof_gc_object_t" using q by (simp add: data_def)
  show "objects s' = ?obj # objects s" by (simp add: s')
  show "heap_used s' = heap_used s + sizeof_gc_object_t + sz" by (simp add: s' t)
  show "t = sizeof_gc_object_t + sz" by (rule t)
qed

lemma gc_collect_initialized: "initialized (gc_collect env s) = initialized s"
proof (cases "initialized s")
  case False
  then show ?thesis by (simp add: gc_collect_def)
next
  case True
  have "initialized (gc_sweep (gc_mark_roots env s)) = initialized (gc_mark_roots env s)"
    by (simp add: gc_sweep_def gc_coalesce_freelist_def split: prod.splits)
      (metis (no_types) gc_sweep_loop_initialized)
  then show ?thesis using True by (simp add: gc_collect_def Let_def gc_mark_roots_fields)
qed

lemma gc_malloc_invariant:
  assumes inv: "gc_invariant s" and mm: "mmap_ok mm"
    and r: "gc_malloc mm env1 env2 n s = (calls, Returns q s')"
  shows "gc_invariant s'"
proof -
  obtain s0 where s0: "(if \<not> initialized s then gc_init mm s else Some s) = Some s0"
    using r by (auto simp: gc_malloc_def split: option.splits)
  have i0: "gc_invariant s0" "initialized s0"
    using s0 inv gc_init_invariant [OF inv mm] by (auto split: if_splits)
  define T where "T = (sizeof_gc_object_t + gc_align n) mod SIZE_MAX_plus_1"
  define s1 where "s1 = (if gc_over_threshold s0 T then gc_collect env1 s0 else s0)"
  have i1: "gc_invariant s1" "initialized s1"
    using i0 by (simp_all add: s1_def gc_collect_invariant gc_collect_initialized)
  obtain p s2 where a1: "gc_alloc_from_freelist T s1 = (p, s2)" by fastforce
  note L1 = i1 [unfolded gc_invariant_def]
  show ?thesis
  proof (cases "p = 0")
    case False
    have "gc_malloc_init_object p (gc_align n) T s2 = Returns q s'"
      using r s0 a1 False by (simp add: gc_malloc_def Let_def T_def s1_def)
    then show ?thesis
      using gc_malloc_init_object_invariant(1) [OF i1(2) _ _ _ a1 False] L1 i1(2) by simp
  next
    case True
    have s2: "s2 = s1"
      using gc_alloc_from_freelist_fails(1) [of T s1 s2] a1 True L1 i1(2) by simp
    define s3 where "s3 = gc_collect env2 s1"
    have i3: "gc_invariant s3" "initialized s3"
      using i1 by (simp_all add: s3_def gc_collect_invariant gc_collect_initialized)
    note L3 = i3 [unfolded gc_invariant_def]
    obtain p' s4 where a2: "gc_alloc_from_freelist T s3 = (p', s4)" by fastforce
    show ?thesis
    proof (cases "p' = 0")
      case True
      have s4: "s4 = s3"
        using gc_alloc_from_freelist_fails(1) [of T s3 s4] a2 True L3 i3(2) by simp
      have "s' = s4"
        using r s0 a1 a2 \<open>p = 0\<close> True by (simp add: gc_malloc_def Let_def T_def s1_def s2 s3_def)
      then show ?thesis using i3 s4 by simp
    next
      case False
      have "gc_malloc_init_object p' (gc_align n) T s4 = Returns q s'"
        using r s0 a1 a2 \<open>p = 0\<close> False by (simp add: gc_malloc_def Let_def T_def s1_def s2 s3_def)
      then show ?thesis
        using gc_malloc_init_object_invariant(1) [OF i3(2) _ _ _ a2 False] L3 i3(2) by simp
    qed
  qed
qed

lemma gc_reachable_invariant: "gc_reachable s \<Longrightarrow> gc_invariant s"
proof (induction rule: gc_reachable.induct)
  case (start sb)
  then show ?case by (simp add: gc_invariant_def gc_state_0_def)
next
  case (init s mm s')
  then show ?case using gc_init_invariant(1) by blast
next
  case (malloc s mm env1 env2 n calls p s')
  then show ?case using gc_malloc_invariant by blast
next
  case (collect s env)
  then show ?case by (simp add: gc_force_collect_def gc_collect_invariant)
next
  case (store s m)
  then show ?case by (simp add: gc_invariant_def)
qed

section \<open>Evaluation on the concrete states\<close>

text \<open>The threshold test in natural numbers: \<open>GC_THRESHOLD\<close> is four fifths.\<close>

lemma gc_over_threshold_iff:
  "gc_over_threshold s total_size \<longleftrightarrow>
     4 * heap_size s < 5 * ((heap_used s + total_size) mod SIZE_MAX_plus_1)"
proof -
  have "real (heap_size s) * (8 / 10) < real ((heap_used s + total_size) mod SIZE_MAX_plus_1)
        \<longleftrightarrow> real (4 * heap_size s) < real (5 * ((heap_used s + total_size) mod SIZE_MAX_plus_1))"
    by (simp add: field_simps)
  then show ?thesis
    unfolding gc_over_threshold_def GC_THRESHOLD_def
    by (simp only: of_nat_less_iff)
qed

lemma gc_align_100: "gc_align 100 = 104"
  by (simp add: gc_align_def GC_ALIGNMENT_def SIZE_MAX_plus_1_def)

lemma gc_align_small:
  "gc_align 8 = 8" "gc_align 0 = 0"
  by (simp_all add: gc_align_def GC_ALIGNMENT_def SIZE_MAX_plus_1_def)

lemma ex_state_malloc:
  "gc_malloc (Some 65536) ex_env ex_env 8 (gc_state_0\<lparr>stack_bottom := 140737488350000\<rparr>)
     = ([Call_gc_alloc_from_freelist 32 65536], Returns 65560 ex_state)"
  by (simp add: gc_malloc_def gc_init_def gc_state_0_def gc_align_small gc_over_threshold_iff
      gc_alloc_from_freelist_def gc_malloc_init_object_def Let_def data_def ex_state_def
      sizeof_gc_object_t_def SIZE_MAX_plus_1_def GC_HEAP_SIZE_def sizeof_gc_free_block_t_def
      GC_ALIGNMENT_def cong del: if_weak_cong)

lemma ex_state_reachable: "gc_reachable ex_state"
proof -
  have "gc_reachable (gc_state_0\<lparr>stack_bottom := 140737488350000\<rparr>)"
    by (rule gc_reachable.start)
  moreover have "mmap_ok (Some 65536)"
    by (simp add: mmap_ok_def GC_HEAP_SIZE_def SIZE_MAX_plus_1_def)
  ultimately show ?thesis
    using ex_state_malloc by (rule gc_reachable.malloc)
qed

lemmas gc_eval_defs =
  gc_malloc_def gc_init_def gc_align_def gc_over_threshold_iff gc_alloc_from_freelist_def
  gc_malloc_init_object_def Let_def data_def sizeof_gc_object_t_def SIZE_MAX_plus_1_def
  GC_HEAP_SIZE_def sizeof_gc_free_block_t_def GC_ALIGNMENT_def sizeof_uintptr_t_def

lemma ex_state_malloc_2:
  "gc_malloc None ex_env ex_env 8 ex_state
     = ([Call_gc_alloc_from_freelist 32 65568], Returns 65592
          (ex_state_abc\<lparr>objects := tl (objects ex_state_abc),
             free_list := [\<lparr>blk_at = 65600, blk_size = 1048512\<rparr>], heap_used := 64,
             allocation_count := 2\<rparr>))"
  apply (simp add: gc_eval_defs ex_state_def ex_state_abc_def)
  apply (simp cong del: if_weak_cong)
  done

lemma ex_state_malloc_3:
  "gc_malloc None ex_env ex_env 8
      (ex_state_abc\<lparr>objects := tl (objects ex_state_abc),
             free_list := [\<lparr>blk_at = 65600, blk_size = 1048512\<rparr>], heap_used := 64,
             allocation_count := 2\<rparr>)
     = ([Call_gc_alloc_from_freelist 32 65600], Returns 65624 ex_state_abc)"
  apply (simp add: gc_eval_defs ex_state_abc_def)
  apply (simp cong del: if_weak_cong)
  done

lemma ex_state_collect:
  "gc_force_collect ex_env_b ex_state_abc = ex_state_b"
  by (simp add: gc_force_collect_def gc_collect_def gc_mark_roots_def gc_eval_defs
      ex_state_abc_def ex_env_b_def ex_state_b_def
      gc_is_valid_pointer_def gc_is_pointer_def gc_find_object_containing_def
      gc_mark_object.simps gc_mark_object_loop.simps set_marked_def
      gc_sweep_def gc_add_to_freelist_def gc_coalesce_freelist_def)

lemma ex_state_abc_reachable: "gc_reachable ex_state_abc"
proof -
  have ok: "mmap_ok None" by (simp add: mmap_ok_def)
  note gc_reachable.malloc [OF ex_state_reachable ok ex_state_malloc_2]
  then show ?thesis
    using ok ex_state_malloc_3 by (rule gc_reachable.malloc)
qed

lemma ex_state_b_reachable: "gc_reachable ex_state_b"
  using gc_reachable.collect [OF ex_state_abc_reachable, of ex_env_b]
  by (simp only: ex_state_collect)

lemmas gc_collect_eval_defs =
  gc_collect_def gc_mark_roots_def
  gc_is_valid_pointer_def gc_is_pointer_def gc_find_object_containing_def
  gc_mark_object.simps gc_mark_object_loop.simps set_marked_def
  gc_sweep_def gc_add_to_freelist_def gc_coalesce_freelist_def

lemma ex_state_big_malloc:
  "gc_malloc (Some 65536) ex_env_none ex_env_none 900000
     (gc_state_0\<lparr>stack_bottom := 140737488350000\<rparr>)
     = ([Call_gc_collect, Call_gc_alloc_from_freelist 900024 65536], Returns 65560 ex_state_big)"
  apply (simp add: gc_eval_defs gc_collect_eval_defs gc_state_0_def ex_env_none_def ex_state_big_def)
  apply (simp cong del: if_weak_cong)
  done

lemma ex_state_big_malloc_0:
  "gc_malloc None ex_env_none ex_env_none 0 ex_state_big
     = ([Call_gc_collect, Call_gc_alloc_from_freelist 24 65536],
        Returns 65560
          (ex_state_big\<lparr>heap_used := 24,
             objects := [\<lparr>obj_at = 65536, obj_size = 0, marked = False\<rparr>],
             free_list := [\<lparr>blk_at = 65560, blk_size = 1048552\<rparr>],
             collection_count := 2, allocation_count := 2\<rparr>))"
  apply (simp add: gc_eval_defs gc_collect_eval_defs ex_env_none_def ex_state_big_def)
  apply (simp cong del: if_weak_cong)
  done

lemma ex_state_oom:
  "gc_malloc None ex_env_b ex_env_b 1048576 ex_state
     = ([Call_gc_collect, Call_gc_alloc_from_freelist 1048600 0, Call_gc_collect,
         Call_gc_alloc_from_freelist 1048600 0],
        Returns 0
          (ex_state\<lparr>heap_used := 0, objects := [],
             free_list := [\<lparr>blk_at = 65536, blk_size = 1048576\<rparr>],
             stack_top := 140737488347000, registers := [1048576],
             collection_count := 2\<rparr>))"
  by (simp add: gc_eval_defs gc_collect_eval_defs ex_env_b_def ex_state_def)

lemma ex_state_wrap:
  "gc_malloc None ex_env ex_env 18446744073709551576 ex_state
     = ([Call_gc_alloc_from_freelist 18446744073709551600 0, Call_gc_collect,
         Call_gc_alloc_from_freelist 18446744073709551600 0],
        Returns 0
          (ex_state\<lparr>stack_top := 140737488347000, registers := [65560, 12],
             collection_count := 1\<rparr>))"
  by (simp add: gc_eval_defs gc_collect_eval_defs ex_env_def ex_state_def)

lemma ex_state_grow:
  "fst (gc_malloc None ex_env ex_env 900000 ex_state)
     = [Call_gc_collect, Call_gc_alloc_from_freelist 900024 65568]"
  by (simp add: gc_eval_defs gc_collect_eval_defs ex_env_def ex_state_def)

lemma rounded_up_eval:
  "rounded_up 900000 = 900000" "rounded_up 18446744073709551576 = 18446744073709551576"
  by (simp_all add: rounded_up_def GC_ALIGNMENT_def)

lemma gc_total_size_eval:
  "gc_total_size 900000 = 900024" "gc_total_size 0 = 24" "gc_total_size 1048576 = 1048600"
  by (simp_all add: gc_total_size_def gc_align_def GC_ALIGNMENT_def SIZE_MAX_plus_1_def
      sizeof_gc_object_t_def)

lemma ex_state_big_reachable: "gc_reachable ex_state_big"
proof -
  have "gc_reachable (gc_state_0\<lparr>stack_bottom := 140737488350000\<rparr>)"
    by (rule gc_reachable.start)
  moreover have "mmap_ok (Some 65536)"
    by (simp add: mmap_ok_def GC_HEAP_SIZE_def SIZE_MAX_plus_1_def)
  ultimately show ?thesis
    using ex_state_big_malloc by (rule gc_reachable.malloc)
qed

lemma ex_state_b_malloc_0:
  "gc_malloc None ex_env ex_env 0 ex_state_b
     = ([Call_gc_alloc_from_freelist 24 65536],
        Returns 65560
          (ex_state_b\<lparr>heap_used := 56,
             objects := [\<lparr>obj_at = 65536, obj_size = 0, marked = False\<rparr>,
                         \<lparr>obj_at = 65568, obj_size = 8, marked = False\<rparr>],
             free_list := [\<lparr>blk_at = 65600, blk_size = 1048512\<rparr>],
             allocation_count := 4\<rparr>))"
  apply (simp add: gc_eval_defs ex_state_b_def)
  apply (simp cong del: if_weak_cong)
  done

lemma sorted_wrt_set_cases:
  "sorted_wrt P xs \<Longrightarrow> x \<in> set xs \<Longrightarrow> y \<in> set xs \<Longrightarrow> x = y \<or> P x y \<or> P y x"
  by (induction xs) auto

lemma fl_separated_strict:
  assumes "fl_separated fl" "\<forall>b \<in> set fl. 0 < blk_size b"
  shows "sorted_wrt (\<lambda>b c. blk_at b < blk_at c) fl"
    and "\<forall>b \<in> set fl. \<forall>c \<in> set fl. blk_at b + blk_size b \<noteq> blk_at c"
proof -
  show "sorted_wrt (\<lambda>b c. blk_at b < blk_at c) fl"
    using assms(1) unfolding fl_separated_def
    by (rule sorted_wrt_mono_rel [rotated]) simp
  show "\<forall>b \<in> set fl. \<forall>c \<in> set fl. blk_at b + blk_size b \<noteq> blk_at c"
  proof (intro ballI)
    fix b c assume b: "b \<in> set fl" and c: "c \<in> set fl"
    from sorted_wrt_set_cases [OF assms(1) [unfolded fl_separated_def] b c]
    consider "b = c" | "blk_at b + blk_size b < blk_at c" | "blk_at c + blk_size c < blk_at b"
      by blast
    then show "blk_at b + blk_size b \<noteq> blk_at c"
      using assms(2) b by cases auto
  qed
qed

lemma gc_invariant_accounted: "gc_invariant s \<Longrightarrow> heap_used_accounted s"
proof (cases "initialized s")
  case True
  assume "gc_invariant s"
  then have "gc_layout s" using True by (simp add: gc_invariant_def)
  then have "heap_used s = sum_list (map obj_total_size (objects s))" by (rule gc_layoutD(9))
  also have "map obj_total_size (objects s)
               = map (\<lambda>obj. sizeof_gc_object_t + obj_size obj) (objects s)"
    by (simp add: obj_total_size_def)
  finally show ?thesis by (simp add: heap_used_accounted_def)
next
  case False
  assume "gc_invariant s"
  then show ?thesis using False by (simp add: gc_invariant_def heap_used_accounted_def)
qed

lemma gc_mark_roots_objects_spans:
  "map obj_at (objects (gc_mark_roots env s)) = map obj_at (objects s)"
  "map obj_size (objects (gc_mark_roots env s)) = map obj_size (objects s)"
  using arg_cong [OF gc_mark_roots_fields(9) [of env s], of "map obj_at"]
    arg_cong [OF gc_mark_roots_fields(9) [of env s], of "map obj_size"]
  by (simp_all add: comp_def)

lemma gc_sweep_loop_frame:
  "gc_sweep_loop objs s = (kept, s') \<Longrightarrow>
   kept = map (\<lambda>obj. obj\<lparr>marked := False\<rparr>) (filter marked objs) \<and>
   (\<exists>fl hu. s' = s\<lparr>free_list := fl, heap_used := hu\<rparr>)"
proof (induction objs arbitrary: s kept s')
  case Nil
  have "s = s\<lparr>free_list := free_list s, heap_used := heap_used s\<rparr>" by simp
  then have "\<exists>fl hu. s = s\<lparr>free_list := fl, heap_used := hu\<rparr>" by blast
  then show ?case using Nil by simp
next
  case (Cons obj rest)
  show ?case
  proof (cases "marked obj")
    case True
    then show ?thesis using Cons by (auto split: prod.splits)
  next
    case False
    let ?t = "(sizeof_gc_object_t + obj_size obj) mod SIZE_MAX_plus_1"
    let ?s1 = "gc_add_to_freelist (obj_at obj) ?t s"
    let ?s2 = "?s1\<lparr>heap_used := (heap_used ?s1 + SIZE_MAX_plus_1 - ?t) mod SIZE_MAX_plus_1\<rparr>"
    have "gc_sweep_loop rest ?s2 = (kept, s')"
      using Cons.prems False by (simp add: Let_def)
    then obtain fl hu where "kept = map (\<lambda>obj. obj\<lparr>marked := False\<rparr>) (filter marked rest)"
      and "s' = ?s2\<lparr>free_list := fl, heap_used := hu\<rparr>"
      using Cons.IH by blast
    then have "kept = map (\<lambda>obj. obj\<lparr>marked := False\<rparr>) (filter marked (obj # rest))"
      and "s' = s\<lparr>free_list := fl, heap_used := hu\<rparr>"
      using False by (simp_all add: gc_add_to_freelist_def)
    then show ?thesis by blast
  qed
qed

lemma gc_sweep_frame:
  "objects (gc_sweep s) = map (\<lambda>obj. obj\<lparr>marked := False\<rparr>) (filter marked (objects s))"
  "\<exists>fl hu. gc_sweep s = s\<lparr>objects := objects (gc_sweep s), free_list := fl, heap_used := hu\<rparr>"
proof -
  obtain kept s' where l: "gc_sweep_loop (objects s) s = (kept, s')" by fastforce
  from gc_sweep_loop_frame [OF l] obtain fl hu
    where k: "kept = map (\<lambda>obj. obj\<lparr>marked := False\<rparr>) (filter marked (objects s))"
      and s': "s' = s\<lparr>free_list := fl, heap_used := hu\<rparr>"
    by blast
  have eq: "gc_sweep s = s\<lparr>objects := kept, free_list := gc_coalesce_loop fl, heap_used := hu\<rparr>"
    by (simp add: gc_sweep_def l gc_coalesce_freelist_def s')
  show "objects (gc_sweep s) = map (\<lambda>obj. obj\<lparr>marked := False\<rparr>) (filter marked (objects s))"
    by (simp add: eq k)
  show "\<exists>fl hu. gc_sweep s = s\<lparr>objects := objects (gc_sweep s), free_list := fl, heap_used := hu\<rparr>"
    by (rule exI [of _ "gc_coalesce_loop fl"], rule exI [of _ hu]) (simp add: eq)
qed

lemma gc_collect_frame:
  "allocation_count (gc_collect env s) = allocation_count s"
  "set (objects (gc_collect env s)) \<subseteq> (\<lambda>obj. obj\<lparr>marked := False\<rparr>) ` set (objects s) \<union> set (objects s)"
  "length (objects (gc_collect env s)) \<le> length (objects s)"
proof -
  let ?s1 = "gc_mark_roots env s"
  obtain fl hu where eq: "gc_sweep ?s1 = ?s1\<lparr>objects := objects (gc_sweep ?s1), free_list := fl, heap_used := hu\<rparr>"
    using gc_sweep_frame(2) [of ?s1] by blast
  have "allocation_count (gc_sweep ?s1) = allocation_count ?s1"
    by (subst eq) simp
  then show "allocation_count (gc_collect env s) = allocation_count s"
    by (simp add: gc_collect_def Let_def gc_mark_roots_fields)
  have "set (objects (gc_sweep ?s1)) \<subseteq> (\<lambda>obj. obj\<lparr>marked := False\<rparr>) ` set (objects ?s1)"
    by (auto simp: gc_sweep_frame(1))
  also have "\<dots> = set (map (\<lambda>obj. obj\<lparr>marked := False\<rparr>) (objects ?s1))" by simp
  also have "\<dots> = set (map (\<lambda>obj. obj\<lparr>marked := False\<rparr>) (objects s))"
    by (simp only: gc_mark_roots_fields(9))
  finally show "set (objects (gc_collect env s))
      \<subseteq> (\<lambda>obj. obj\<lparr>marked := False\<rparr>) ` set (objects s) \<union> set (objects s)"
    by (auto simp: gc_collect_def Let_def)
  have "length (objects (gc_sweep ?s1)) \<le> length (objects ?s1)"
    by (simp add: gc_sweep_frame(1))
  also have "\<dots> = length (map (\<lambda>obj. obj\<lparr>marked := False\<rparr>) (objects ?s1))" by simp
  also have "\<dots> = length (objects s)"
    by (simp only: gc_mark_roots_fields(9) length_map)
  finally show "length (objects (gc_collect env s)) \<le> length (objects s)"
    by (simp add: gc_collect_def Let_def)
qed

lemma gc_alloc_from_freelist_frame:
  "gc_alloc_from_freelist t s = (p, s') \<Longrightarrow> \<exists>fl. s' = s\<lparr>free_list := fl\<rparr>"
  by (auto simp: gc_alloc_from_freelist_def split: prod.splits)

lemma gc_align_rounded_up:
  "sz + GC_ALIGNMENT \<le> SIZE_MAX_plus_1 \<Longrightarrow> gc_align sz = rounded_up sz"
  by (simp add: gc_align_def rounded_up_def GC_ALIGNMENT_def SIZE_MAX_plus_1_def)

lemma rounded_up_bounds: "sz \<le> rounded_up sz" "rounded_up sz < sz + GC_ALIGNMENT"
  unfolding rounded_up_def GC_ALIGNMENT_def by presburger+

lemma gc_malloc_calls:
  fixes n :: size_t and env1 env2 :: gc_env and s s0 :: gc_state
  assumes "(if \<not> initialized s then gc_init mm s else Some s) = Some s0"
  defines "T \<equiv> gc_total_size n"
  defines "s1 \<equiv> (if gc_over_threshold s0 T then gc_collect env1 s0 else s0)"
  defines "pre \<equiv> (if gc_over_threshold s0 T then [Call_gc_collect] else [])"
  shows "gc_malloc mm env1 env2 n s =
    (if fst (gc_alloc_from_freelist T s1) \<noteq> 0
     then (pre @ [Call_gc_alloc_from_freelist T (fst (gc_alloc_from_freelist T s1))],
           gc_malloc_init_object (fst (gc_alloc_from_freelist T s1)) (gc_align n) T
             (snd (gc_alloc_from_freelist T s1)))
     else (pre @ [Call_gc_alloc_from_freelist T 0, Call_gc_collect,
                  Call_gc_alloc_from_freelist T
                    (fst (gc_alloc_from_freelist T (gc_collect env2 (snd (gc_alloc_from_freelist T s1)))))],
           if fst (gc_alloc_from_freelist T (gc_collect env2 (snd (gc_alloc_from_freelist T s1)))) = 0
           then Returns 0 (snd (gc_alloc_from_freelist T (gc_collect env2 (snd (gc_alloc_from_freelist T s1)))))
           else gc_malloc_init_object
                  (fst (gc_alloc_from_freelist T (gc_collect env2 (snd (gc_alloc_from_freelist T s1)))))
                  (gc_align n) T
                  (snd (gc_alloc_from_freelist T (gc_collect env2 (snd (gc_alloc_from_freelist T s1)))))))"
  using assms(1)
  by (simp add: gc_malloc_def Let_def T_def s1_def pre_def gc_total_size_def split_beta)

lemma gc_total_size_nowrap:
  assumes "sizeof_gc_object_t + n + GC_ALIGNMENT \<le> SIZE_MAX_plus_1"
  shows "gc_total_size n = sizeof_gc_object_t + rounded_up n"
proof -
  have "gc_align n = rounded_up n"
    using assms by (intro gc_align_rounded_up) simp
  moreover have "sizeof_gc_object_t + rounded_up n < SIZE_MAX_plus_1"
    using rounded_up_bounds(2) [of n] assms by linarith
  ultimately show ?thesis by (simp add: gc_total_size_def)
qed

lemma clear_marked_idem:
  "(\<lambda>obj. obj\<lparr>marked := False\<rparr>) ` ((\<lambda>obj. obj\<lparr>marked := False\<rparr>) ` X \<union> X)
     \<union> ((\<lambda>obj. obj\<lparr>marked := False\<rparr>) ` X \<union> X)
   = (\<lambda>obj::gc_object. obj\<lparr>marked := False\<rparr>) ` X \<union> X"
  by (auto simp: image_iff)

lemma gc_collect_keeps_large_block:
  assumes "gc_invariant s" "initialized s" "b \<in> set (free_list s)"
  shows "\<exists>c \<in> set (free_list (gc_collect env s)). blk_size b \<le> blk_size c"
proof -
  let ?s1 = "gc_mark_roots env s"
  have L1: "gc_layout ?s1"
    using assms(1,2) by (simp add: gc_invariant_def gc_mark_roots_layout)
  have "b \<in> set (free_list ?s1)" using assms(3) by (simp add: gc_mark_roots_fields)
  then have "\<exists>c \<in> set (swept_free_list ?s1). blk_size b \<le> blk_size c"
    by (rule swept_free_list_props(5) [OF L1])
  moreover have "free_list (gc_collect env s) = swept_free_list ?s1"
    using assms(2) by (simp add: gc_collect_def Let_def gc_sweep_closed [OF L1])
  ultimately show ?thesis by simp
qed

text \<open>\<^verbatim>\<open>heap_used\<close> across a collection: when the counter equals the registry's total and
  is a \<^verbatim>\<open>size_t\<close> value, no subtraction of the sweep wraps, and the counter falls by exactly
  the bytes reclaimed.\<close>

lemma heap_used_gc_add_to_freelist:
  "heap_used (gc_add_to_freelist a t s) = heap_used s"
  by (simp add: gc_add_to_freelist_def)

lemma obj_total_size_fun: "obj_total_size = (\<lambda>obj. sizeof_gc_object_t + obj_size obj)"
  by (rule ext) (simp add: obj_total_size_def)

lemma gc_sweep_loop_heap_used:
  "gc_sweep_loop objs s = (kept, s') \<Longrightarrow>
   sum_list (map obj_total_size objs) \<le> heap_used s \<Longrightarrow> heap_used s < SIZE_MAX_plus_1 \<Longrightarrow>
   heap_used s' + sum_list (map obj_total_size (unmarked objs)) = heap_used s"
proof (induction objs arbitrary: s kept s')
  case Nil
  then show ?case by (simp add: unmarked_def)
next
  case (Cons obj rest)
  show ?case
  proof (cases "marked obj")
    case True
    obtain k1 t1 where r: "gc_sweep_loop rest s = (k1, t1)" by fastforce
    have "s' = t1" using Cons.prems(1) True r by simp
    moreover have "heap_used t1 + sum_list (map obj_total_size (unmarked rest)) = heap_used s"
      using Cons.IH [OF r] Cons.prems(2,3) by simp
    ultimately show ?thesis using True by (simp add: unmarked_def)
  next
    case False
    let ?t = "obj_total_size obj"
    let ?s2 = "(gc_add_to_freelist (obj_at obj) ?t s)\<lparr>heap_used := heap_used s - ?t\<rparr>"
    have le: "?t \<le> heap_used s" using Cons.prems(2) by simp
    then have lt: "?t < SIZE_MAX_plus_1" using Cons.prems(3) by linarith
    have tot: "(sizeof_gc_object_t + obj_size obj) mod SIZE_MAX_plus_1 = ?t"
      using lt by (simp add: obj_total_size_def)
    have sub: "(heap_used s + SIZE_MAX_plus_1 - ?t) mod SIZE_MAX_plus_1 = heap_used s - ?t"
      using le Cons.prems(3) by (rule size_t_minus)
    have r: "gc_sweep_loop rest ?s2 = (kept, s')"
      using Cons.prems(1) False
      by (simp add: Let_def tot heap_used_gc_add_to_freelist sub)
    have "heap_used s' + sum_list (map obj_total_size (unmarked rest)) = heap_used ?s2"
      using Cons.prems(2,3)
      by (intro Cons.IH [OF r]) (simp_all add: heap_used_gc_add_to_freelist)
    then show ?thesis
      using False le by (simp add: unmarked_def heap_used_gc_add_to_freelist)
  qed
qed

lemma sum_obj_total_size_spans:
  "map obj_size xs = map obj_size ys \<Longrightarrow>
   sum_list (map obj_total_size xs) = sum_list (map obj_total_size ys)"
proof -
  assume "map obj_size xs = map obj_size ys"
  then have "map (\<lambda>z. sizeof_gc_object_t + z) (map obj_size xs)
               = map (\<lambda>z. sizeof_gc_object_t + z) (map obj_size ys)"
    by simp
  then have "map obj_total_size xs = map obj_total_size ys"
    by (simp add: comp_def obj_total_size_fun)
  then show ?thesis by simp
qed

lemma gc_collect_heap_used:
  assumes i: "initialized s" and a: "heap_used_accounted s" and b: "heap_used s < SIZE_MAX_plus_1"
  shows "heap_used (gc_collect env s) + gc_reclaimed env s = heap_used s"
    and "heap_used_accounted (gc_collect env s)"
proof -
  let ?s1 = "gc_mark_roots env s"
  obtain kept s' where l: "gc_sweep_loop (objects ?s1) ?s1 = (kept, s')" by fastforce
  have hu1: "heap_used ?s1 = heap_used s" by (rule gc_mark_roots_fields(3))
  have "sum_list (map obj_total_size (objects ?s1)) = sum_list (map obj_total_size (objects s))"
    by (rule sum_obj_total_size_spans) (rule gc_mark_roots_objects_spans(2))
  also have "\<dots> = heap_used s"
    using a by (simp add: heap_used_accounted_def obj_total_size_fun)
  finally have acc1: "sum_list (map obj_total_size (objects ?s1)) = heap_used ?s1"
    using hu1 by simp
  have sw: "heap_used s' + sum_list (map obj_total_size (unmarked (objects ?s1))) = heap_used ?s1"
    using l acc1 b hu1 by (intro gc_sweep_loop_heap_used) simp_all
  have hc: "heap_used (gc_collect env s) = heap_used s'"
    using i by (simp add: gc_collect_def Let_def gc_sweep_def l gc_coalesce_freelist_def)
  show 1: "heap_used (gc_collect env s) + gc_reclaimed env s = heap_used s"
    using sw hc hu1 by (simp add: gc_reclaimed_def)
  have oc: "objects (gc_collect env s)
              = map (\<lambda>obj. obj\<lparr>marked := False\<rparr>) (filter marked (objects ?s1))"
    using i by (simp add: gc_collect_def Let_def gc_sweep_frame(1))
  have "sum_list (map obj_total_size (objects (gc_collect env s)))
          = sum_list (map obj_total_size (filter marked (objects ?s1)))"
    by (simp add: oc comp_def)
  moreover have "sum_list (map obj_total_size (filter marked (objects ?s1)))
                   + sum_list (map obj_total_size (unmarked (objects ?s1))) = heap_used ?s1"
    using sum_list_marked_split [of obj_total_size "objects ?s1"] acc1 by simp
  ultimately have "sum_list (map obj_total_size (objects (gc_collect env s)))
                     = heap_used (gc_collect env s)"
    using sw hc by linarith
  then show "heap_used_accounted (gc_collect env s)"
    by (simp add: heap_used_accounted_def obj_total_size_fun)
qed

lemma gc_reachable_heap_used_bound:
  assumes "gc_invariant s" "initialized s"
  shows "heap_used s < SIZE_MAX_plus_1"
proof -
  have L: "gc_layout s" using assms by (simp add: gc_invariant_def)
  have "heap_used s \<le> heap_size s" using gc_layoutD(10) [OF L] by linarith
  moreover have "heap_size s < SIZE_MAX_plus_1"
    using gc_layoutD(1,3) [OF L] by linarith
  ultimately show ?thesis by linarith
qed

lemma gc_malloc_entry_accounted:
  assumes r: "gc_reachable s"
    and init: "(if \<not> initialized s then gc_init mm s else Some s) = Some s0"
  shows "initialized s0 \<and> heap_used_accounted s0 \<and> heap_used s0 < SIZE_MAX_plus_1 \<and>
         heap_used s0 = heap_used s"
proof (cases "initialized s")
  case True
  have inv: "gc_invariant s" by (rule gc_reachable_invariant [OF r])
  have "s0 = s" using init True by simp
  then show ?thesis
    using True gc_invariant_accounted [OF inv] gc_reachable_heap_used_bound [OF inv True]
    by simp
next
  case False
  have inv: "gc_invariant s" by (rule gc_reachable_invariant [OF r])
  have z: "heap_used s = 0" using inv False by (simp add: gc_invariant_def)
  from False init obtain h where
    "s0 = s\<lparr>heap := h, heap_size := GC_HEAP_SIZE, heap_used := 0, objects := [],
                collection_count := 0, allocation_count := 0,
                free_list := [\<lparr>blk_at = h, blk_size = GC_HEAP_SIZE\<rparr>],
                initialized := True\<rparr>"
    by (auto simp: gc_init_def split: option.splits)
  then show ?thesis
    using z by (simp add: heap_used_accounted_def SIZE_MAX_plus_1_def)
qed

section \<open>The marking recursion and the reference graph\<close>

text \<open>The pointer tests, the registry search and the reference graph do not read the mark
  flags.\<close>

lemma gc_find_object_loop_clear:
  "gc_find_object_loop (map (\<lambda>obj. obj\<lparr>marked := False\<rparr>) objs) p = gc_find_object_loop objs p"
  by (induction objs) (simp_all add: data_def)

lemma gc_find_object_containing_clear:
  "gc_find_object_containing (clear_marks s) p = gc_find_object_containing s p"
  by (simp add: gc_find_object_containing_def gc_find_object_loop_clear clear_marks_fields)

lemma gc_is_valid_pointer_clear:
  "gc_is_valid_pointer (clear_marks s) v = gc_is_valid_pointer s v"
  by (simp add: gc_is_valid_pointer_def)

lemma clear_marks_cong:
  assumes "clear_marks s' = clear_marks s"
  shows "gc_find_object_containing s' = gc_find_object_containing s"
    and "gc_is_valid_pointer s' = gc_is_valid_pointer s"
    and "mem s' = mem s"
    and "length (objects s') = length (objects s)"
    and "k < length (objects s) \<Longrightarrow> data (objects s' ! k) = data (objects s ! k)"
    and "k < length (objects s) \<Longrightarrow> obj_size (objects s' ! k) = obj_size (objects s ! k)"
proof -
  show "gc_find_object_containing s' = gc_find_object_containing s"
    using gc_find_object_containing_clear [of s'] gc_find_object_containing_clear [of s] assms
    by (intro ext) simp
  show "gc_is_valid_pointer s' = gc_is_valid_pointer s"
    using gc_is_valid_pointer_clear [of s'] gc_is_valid_pointer_clear [of s] assms
    by (intro ext) simp
  show "mem s' = mem s"
    using arg_cong [OF assms, of mem] by (simp add: clear_marks_fields)
  have m: "map (\<lambda>obj. obj\<lparr>marked := False\<rparr>) (objects s') = map (\<lambda>obj. obj\<lparr>marked := False\<rparr>) (objects s)"
    using arg_cong [OF assms, of objects] by (simp add: clear_marks_fields)
  have "length (map (\<lambda>obj. obj\<lparr>marked := False\<rparr>) (objects s'))
          = length (map (\<lambda>obj. obj\<lparr>marked := False\<rparr>) (objects s))"
    by (simp only: m)
  then show len: "length (objects s') = length (objects s)"
    by (simp only: length_map)
  show "data (objects s' ! k) = data (objects s ! k)" if "k < length (objects s)"
  proof -
    have "map (\<lambda>obj. obj\<lparr>marked := False\<rparr>) (objects s') ! k
            = map (\<lambda>obj. obj\<lparr>marked := False\<rparr>) (objects s) ! k"
      by (simp only: m)
    then have "(objects s' ! k)\<lparr>marked := False\<rparr> = (objects s ! k)\<lparr>marked := False\<rparr>"
      using that len by (simp only: nth_map)
    then have "obj_at ((objects s' ! k)\<lparr>marked := False\<rparr>) = obj_at ((objects s ! k)\<lparr>marked := False\<rparr>)"
      by simp
    then show ?thesis by (simp add: data_def)
  qed
  show "obj_size (objects s' ! k) = obj_size (objects s ! k)" if "k < length (objects s)"
  proof -
    have "map (\<lambda>obj. obj\<lparr>marked := False\<rparr>) (objects s') ! k
            = map (\<lambda>obj. obj\<lparr>marked := False\<rparr>) (objects s) ! k"
      by (simp only: m)
    then have "(objects s' ! k)\<lparr>marked := False\<rparr> = (objects s ! k)\<lparr>marked := False\<rparr>"
      using that len by (simp only: nth_map)
    then have "obj_size ((objects s' ! k)\<lparr>marked := False\<rparr>) = obj_size ((objects s ! k)\<lparr>marked := False\<rparr>)"
      by simp
    then show ?thesis by simp
  qed
qed

lemma gc_edge_cong:
  assumes "clear_marks s' = clear_marks s" "k < length (objects s)"
  shows "gc_edge s' k k' = gc_edge s k k'"
  unfolding gc_edge_def
  by (simp only: clear_marks_cong(1,2,3) [OF assms(1)] clear_marks_cong(5,6) [OF assms])

lemma gc_edge_bound: "gc_edge s k k' \<Longrightarrow> k' < length (objects s)"
  by (auto simp: gc_edge_def dest: gc_find_object_containing_bound)

lemma mark_extends_refl: "mark_extends s s"
  by (simp add: mark_extends_def)

lemma mark_extends_trans:
  assumes "mark_extends s s1" "mark_extends s1 s2"
  shows "mark_extends s s2"
proof -
  have c1: "clear_marks s1 = clear_marks s" and c2: "clear_marks s2 = clear_marks s1"
    using assms by (simp_all add: mark_extends_def)
  have len: "length (objects s1) = length (objects s)"
    by (rule clear_marks_cong(4) [OF c1])
  have mono1: "marked (objects s1 ! k)" if "k < length (objects s)" "marked (objects s ! k)" for k
    using assms(1) that by (simp add: mark_extends_def)
  have mono2: "marked (objects s2 ! k)" if "k < length (objects s)" "marked (objects s1 ! k)" for k
    using assms(2) that len by (simp add: mark_extends_def)
  have new: "marked (objects s2 ! k')"
    if k: "k < length (objects s)" and m2: "marked (objects s2 ! k)"
      and m0: "\<not> marked (objects s ! k)" and e: "gc_edge s k k'" for k k'
  proof (cases "marked (objects s1 ! k)")
    case True
    then have "marked (objects s1 ! k')"
      using assms(1) k m0 e by (simp add: mark_extends_def)
    then show ?thesis using mono2 gc_edge_bound [OF e] by blast
  next
    case False
    have "gc_edge s1 k k'" using e gc_edge_cong [OF c1 k] by simp
    then show ?thesis
      using assms(2) k len m2 False by (simp add: mark_extends_def)
  qed
  show ?thesis
    unfolding mark_extends_def using c1 c2 mono1 mono2 new by auto
qed

lemma set_marked_props:
  assumes k: "k < length (objects s)"
  shows "clear_marks (set_marked k s) = clear_marks s"
    and "marked (objects (set_marked k s) ! k)"
    and "j < length (objects s) \<Longrightarrow> marked (objects s ! j) \<Longrightarrow> marked (objects (set_marked k s) ! j)"
    and "j \<noteq> k \<Longrightarrow> objects (set_marked k s) ! j = objects s ! j"
proof -
  show "clear_marks (set_marked k s) = clear_marks s"
    using k by (rule clear_marks_set_marked)
  show "marked (objects (set_marked k s) ! k)"
    using k by (simp add: set_marked_def)
  show "marked (objects (set_marked k s) ! j)" if "j < length (objects s)" "marked (objects s ! j)"
    using k that by (simp add: set_marked_def nth_list_update)
  show "objects (set_marked k s) ! j = objects s ! j" if "j \<noteq> k"
    using that by (simp add: set_marked_def)
qed

text \<open>Both functions of the marking recursion, by the induction the recursion gives:
  a call of \<^verbatim>\<open>gc_mark_object\<close> extends the marks and leaves the object of its candidate
  marked; the loop from word \<open>i\<close> on extends the marks and leaves marked every object that a
  valid word \<open>j\<close> with \<open>i \<le> j < word_count\<close> refers to.\<close>

lemma gc_mark_extends:
  "mark_extends s (gc_mark_object ptr s) \<and>
   (\<forall>k. gc_find_object_containing s ptr = Some k \<longrightarrow> marked (objects (gc_mark_object ptr s) ! k))"
  "mark_extends s (gc_mark_object_loop d i n s) \<and>
   (\<forall>j k'. i \<le> j \<and> j < n \<and> gc_is_valid_pointer s (mem s (d + sizeof_uintptr_t * j)) \<and>
       gc_find_object_containing s (mem s (d + sizeof_uintptr_t * j)) = Some k' \<longrightarrow>
       marked (objects (gc_mark_object_loop d i n s) ! k'))"
proof (induction ptr s and d i n s rule: gc_mark_object_gc_mark_object_loop.induct)
  case (1 ptr s)
  show ?case
  proof (cases "gc_find_object_containing s ptr")
    case None
    then have "gc_mark_object ptr s = s"
      by (simp add: gc_mark_object.simps [of ptr s])
    then show ?thesis using None by (simp add: mark_extends_refl)
  next
    case (Some k)
    have inheap: "gc_is_pointer s ptr"
      using Some by (auto simp: gc_find_object_containing_def split: if_splits)
    have kb: "k < length (objects s)" by (rule gc_find_object_containing_bound [OF Some])
    show ?thesis
    proof (cases "marked (objects s ! k)")
      case True
      then have "gc_mark_object ptr s = s"
        using Some inheap by (simp add: gc_mark_object.simps [of ptr s])
      then show ?thesis using Some True by (simp add: mark_extends_refl)
    next
      case False
      let ?d = "data (objects s ! k)" and ?n = "obj_size (objects s ! k) div sizeof_uintptr_t"
      let ?s1 = "set_marked k s"
      let ?s' = "gc_mark_object_loop ?d 0 ?n ?s1"
      have eq: "gc_mark_object ptr s = ?s'"
        using Some inheap False by (simp add: gc_mark_object.simps [of ptr s])
      note IH = "1.IH" [of k, simplified, OF inheap Some False]
      have ext1: "mark_extends ?s1 ?s'" using IH by blast
      have scan: "marked (objects ?s' ! k')"
        if "j < ?n" "gc_is_valid_pointer ?s1 (mem ?s1 (?d + sizeof_uintptr_t * j))"
          "gc_find_object_containing ?s1 (mem ?s1 (?d + sizeof_uintptr_t * j)) = Some k'" for j k'
        using IH that by blast
      note P = set_marked_props [OF kb]
      note C = clear_marks_cong [OF P(1)]
      have c': "clear_marks ?s' = clear_marks s"
        using ext1 P(1) by (simp add: mark_extends_def)
      have len1: "length (objects ?s1) = length (objects s)" by (rule C(4))
      have mono: "marked (objects ?s' ! j)" if "j < length (objects s)" "marked (objects s ! j)" for j
        using ext1 P(3) [OF that] that(1) len1 by (simp add: mark_extends_def)
      have mk: "marked (objects ?s' ! k)"
        using ext1 P(2) kb len1 by (simp add: mark_extends_def)
      have new: "marked (objects ?s' ! k')"
        if j: "j < length (objects s)" and m: "marked (objects ?s' ! j)"
          and m0: "\<not> marked (objects s ! j)" and e: "gc_edge s j k'" for j k'
      proof (cases "j = k")
        case True
        from e obtain i where i: "i < ?n"
          "gc_is_valid_pointer s (mem s (?d + sizeof_uintptr_t * i))"
          "gc_find_object_containing s (mem s (?d + sizeof_uintptr_t * i)) = Some k'"
          unfolding gc_edge_def True by blast
        show ?thesis
          by (rule scan [of i]) (simp_all add: i C(1,2,3))
      next
        case False
        then have "\<not> marked (objects ?s1 ! j)" using m0 P(4) by simp
        moreover have "gc_edge ?s1 j k'" using e gc_edge_cong [OF P(1) j] by simp
        ultimately show ?thesis
          using ext1 j len1 m by (simp add: mark_extends_def)
      qed
      have "mark_extends s ?s'"
        unfolding mark_extends_def using c' mono new by blast
      then show ?thesis using Some mk by (simp add: eq)
    qed
  qed
next
  case (2 d i n s)
  let ?w = "mem s (d + sizeof_uintptr_t * i)"
  show ?case
  proof (cases "i < n")
    case False
    then have "gc_mark_object_loop d i n s = s"
      by (simp add: gc_mark_object_loop.simps [of d i n s])
    then show ?thesis using False by (auto simp: mark_extends_refl)
  next
    case lt: True
    show ?thesis
    proof (cases "gc_is_valid_pointer s ?w")
      case False
      have eq: "gc_mark_object_loop d i n s = gc_mark_object_loop d (Suc i) n s"
        using lt False by (simp add: gc_mark_object_loop.simps [of d i n s])
      note IH = "2.IH"(3) [OF lt False]
      have "marked (objects (gc_mark_object_loop d (Suc i) n s) ! k')"
        if "i \<le> j" "j < n" "gc_is_valid_pointer s (mem s (d + sizeof_uintptr_t * j))"
          "gc_find_object_containing s (mem s (d + sizeof_uintptr_t * j)) = Some k'" for j k'
      proof -
        have "j \<noteq> i" using that(3) False by auto
        then have "Suc i \<le> j" using that(1) by simp
        then show ?thesis using IH that by blast
      qed
      then show ?thesis unfolding eq using IH by blast
    next
      case valid: True
      let ?s1 = "gc_mark_object ?w s"
      let ?s' = "gc_mark_object_loop d (Suc i) n ?s1"
      have eq: "gc_mark_object_loop d i n s = ?s'"
        using lt valid by (simp add: gc_mark_object_loop.simps [of d i n s])
      note IH1 = "2.IH"(1) [OF lt valid]
      note IH2 = "2.IH"(2) [OF lt valid]
      have e1: "mark_extends s ?s1" and e2: "mark_extends ?s1 ?s'"
        using IH1 IH2 by blast+
      have c1: "clear_marks ?s1 = clear_marks s"
        using e1 by (simp add: mark_extends_def)
      note C = clear_marks_cong [OF c1]
      have "marked (objects ?s' ! k')"
        if "i \<le> j" "j < n" "gc_is_valid_pointer s (mem s (d + sizeof_uintptr_t * j))"
          "gc_find_object_containing s (mem s (d + sizeof_uintptr_t * j)) = Some k'" for j k'
      proof (cases "j = i")
        case True
        then have f: "gc_find_object_containing s ?w = Some k'" using that(4) by simp
        then have "marked (objects ?s1 ! k')" using IH1 by blast
        moreover have "k' < length (objects ?s1)"
          using gc_find_object_containing_bound [OF f] C(4) by simp
        ultimately show ?thesis using e2 by (simp add: mark_extends_def)
      next
        case False
        then have "Suc i \<le> j" using that(1) by simp
        moreover have "gc_is_valid_pointer ?s1 (mem ?s1 (d + sizeof_uintptr_t * j))"
          "gc_find_object_containing ?s1 (mem ?s1 (d + sizeof_uintptr_t * j)) = Some k'"
          using that(3,4) by (simp_all add: C(1,2,3))
        ultimately show ?thesis using IH2 that(2) by blast
      qed
      then show ?thesis
        unfolding eq using mark_extends_trans [OF e1 e2] by blast
    qed
  qed
qed

lemma gc_reaches_bound: "gc_reaches s ptr k \<Longrightarrow> k < length (objects s)"
  by (induction rule: gc_reaches.induct)
     (auto dest: gc_find_object_containing_bound gc_edge_bound)

lemma marks_closed_unmarked:
  "\<forall>obj \<in> set (objects s). \<not> marked obj \<Longrightarrow> marks_closed s"
  by (simp add: marks_closed_def)

lemma mark_extends_closed:
  assumes e: "mark_extends s s'" and c: "marks_closed s"
  shows "marks_closed s'"
proof -
  have cl: "clear_marks s' = clear_marks s" using e by (simp add: mark_extends_def)
  have len: "length (objects s') = length (objects s)" by (rule clear_marks_cong(4) [OF cl])
  have "marked (objects s' ! k')"
    if k: "k < length (objects s)" and m: "marked (objects s' ! k)" and ed: "gc_edge s' k k'"
    for k k'
  proof -
    have ed0: "gc_edge s k k'" using ed gc_edge_cong [OF cl k] by simp
    show ?thesis
    proof (cases "marked (objects s ! k)")
      case True
      then have "marked (objects s ! k')" using c k ed0 unfolding marks_closed_def by blast
      then show ?thesis using e gc_edge_bound [OF ed0] unfolding mark_extends_def by blast
    next
      case False
      then show ?thesis using e k m ed0 unfolding mark_extends_def by blast
    qed
  qed
  then show ?thesis unfolding marks_closed_def len by blast
qed

lemma gc_mark_closed_reaches:
  assumes r: "gc_reaches s ptr k" and c: "marks_closed s"
  shows "marked (objects (gc_mark_object ptr s) ! k)"
  using r c
proof (induction rule: gc_reaches.induct)
  case (root s ptr k)
  then show ?case using gc_mark_extends(1) [of s ptr] by blast
next
  case (step s ptr k k')
  note c = step.prems
  have e: "mark_extends s (gc_mark_object ptr s)" using gc_mark_extends(1) [of s ptr] by blast
  have k: "k < length (objects s)" by (rule gc_reaches_bound [OF step.hyps(1)])
  have m: "marked (objects (gc_mark_object ptr s) ! k)" by (rule step.IH [OF c])
  show ?case
  proof (cases "marked (objects s ! k)")
    case True
    then have "marked (objects s ! k')"
      using c k step.hyps(2) unfolding marks_closed_def by blast
    then show ?thesis
      using e gc_edge_bound [OF step.hyps(2)] unfolding mark_extends_def by blast
  next
    case False
    then show ?thesis using e k m step.hyps(2) unfolding mark_extends_def by blast
  qed
qed

text \<open>The example graph: how the program gets there, and what the marking from 65656
  does in it.\<close>

lemma ex_graph_malloc:
  "gc_malloc None ex_env ex_env 16 ex_state_abc
     = ([Call_gc_alloc_from_freelist 40 65632], Returns 65656 (ex_graph\<lparr>mem := (\<lambda>a. 0)\<rparr>))"
  apply (simp add: gc_eval_defs ex_state_abc_def ex_graph_def)
  apply (simp cong del: if_weak_cong)
  done

lemma ex_graph_reachable: "gc_reachable ex_graph"
proof -
  have ok: "mmap_ok None" by (simp add: mmap_ok_def)
  have "gc_reachable (ex_graph\<lparr>mem := (\<lambda>a. 0)\<rparr>)"
    using ex_state_abc_reachable ok ex_graph_malloc by (rule gc_reachable.malloc)
  then have "gc_reachable (ex_graph\<lparr>mem := (\<lambda>a. 0)\<rparr>\<lparr>mem := mem ex_graph\<rparr>)"
    by (rule gc_reachable.store)
  then show ?thesis by simp
qed

lemmas gc_mark_eval_defs =
  gc_is_valid_pointer_def gc_is_pointer_def gc_find_object_containing_def
  gc_mark_object.simps gc_mark_object_loop.simps set_marked_def
  data_def sizeof_gc_object_t_def sizeof_uintptr_t_def

lemma ex_graph_reaches: "gc_reaches ex_graph 65656 1"
proof -
  have "gc_find_object_containing ex_graph 65656 = Some 0"
    by (simp add: gc_mark_eval_defs ex_graph_def)
  then have "gc_reaches ex_graph 65656 0" by (rule gc_reaches.root)
  moreover have "gc_edge ex_graph 0 1"
    unfolding gc_edge_def
    by (rule exI [of _ 1]) (simp add: gc_mark_eval_defs ex_graph_def)
  ultimately show ?thesis by (rule gc_reaches.step)
qed

lemma ex_graph_mid_reaches: "gc_reaches ex_graph_mid 65656 1"
proof -
  have "gc_find_object_containing ex_graph_mid 65656 = Some 0"
    by (simp add: gc_mark_eval_defs ex_graph_def ex_graph_mid_def)
  then have "gc_reaches ex_graph_mid 65656 0" by (rule gc_reaches.root)
  moreover have "gc_edge ex_graph_mid 0 1"
    unfolding gc_edge_def
    by (rule exI [of _ 1]) (simp add: gc_mark_eval_defs ex_graph_def ex_graph_mid_def)
  ultimately show ?thesis by (rule gc_reaches.step)
qed

lemma ex_graph_mark:
  "gc_mark_object 65656 ex_graph = ex_graph\<lparr>objects :=
     [\<lparr>obj_at = 65632, obj_size = 16, marked = True\<rparr>,
      \<lparr>obj_at = 65600, obj_size = 8, marked = True\<rparr>,
      \<lparr>obj_at = 65568, obj_size = 8, marked = True\<rparr>,
      \<lparr>obj_at = 65536, obj_size = 8, marked = False\<rparr>]\<rparr>"
  by (simp add: gc_mark_eval_defs ex_graph_def)

lemma ex_graph_mid_mark: "gc_mark_object 65656 ex_graph_mid = ex_graph_mid"
  by (simp add: gc_mark_eval_defs ex_graph_def ex_graph_mid_def)

lemma ex_graph_mid_nested:
  "ex_graph_mid = set_marked 2 (set_marked 0 ex_graph)"
  "gc_mark_object 65656 ex_graph
     = gc_mark_object_loop 65656 1 2
         (gc_mark_object_loop 65592 1 1 (gc_mark_object 65656 ex_graph_mid))"
  by (simp_all add: gc_mark_eval_defs ex_graph_def ex_graph_mid_def)

section \<open>Collection before initialisation\<close>

text \<open>C10: while \<^verbatim>\<open>gc_state.initialized\<close> is 0, \<^verbatim>\<open>gc_force_collect\<close> and \<^verbatim>\<open>gc_collect\<close> return
  at once and leave the whole collector state as it was: nothing is marked, nothing is
  swept, and the collection counter does not move.\<close>

theorem gc_collect_uninitialized:
  "\<not> initialized s \<Longrightarrow> gc_force_collect env s = s \<and> gc_collect env s = s"
  by (simp add: gc_force_collect_def gc_collect_def)

theorem gc_collect_uninitialized_witness:
  "\<not> initialized gc_state_0 \<and> gc_force_collect ex_env gc_state_0 = gc_state_0
     \<and> gc_collect ex_env gc_state_0 = gc_state_0"
  using gc_collect_uninitialized [of gc_state_0 ex_env] by (simp add: gc_state_0_def)

section \<open>Resizing\<close>

text \<open>C7: for a pointer that is not null, \<^verbatim>\<open>gc_realloc(ptr, 0)\<close> returns the null pointer and
  the state it returns in is the state it was called in: the registry, the free list and
  \<^verbatim>\<open>heap_used\<close> are unchanged, so nothing is reclaimed during the call.\<close>

theorem gc_realloc_zero:
  "ptr \<noteq> 0 \<Longrightarrow> gc_realloc mm env1 env2 ptr 0 s = Returns 0 s"
  by (simp add: gc_realloc_def)

theorem gc_realloc_zero_witness:
  "(65560::nat) \<noteq> 0
     \<and> gc_realloc (Some 65536) ex_env ex_env 65560 0 ex_state = Returns 0 ex_state"
  using gc_realloc_zero [of 65560 "Some 65536" ex_env ex_env ex_state] by simp

text \<open>C1 says that resizing a live object beyond its capacity allocates a new object, copies
  the old payload and returns the new pointer. In the source those statements stand behind
  \<^verbatim>\<open>return ptr;\<close> inside the block of the in-place test, so the code never reaches them: for
  the 8-byte object of \<open>ex_state\<close>, whose payload is at 65560, \<^verbatim>\<open>gc_realloc(ptr, 100)\<close>
  allocates nothing, copies nothing and returns no pointer.\<close>

theorem gc_realloc_grow_no_return:
  "gc_realloc (Some 65536) ex_env ex_env 65560 100 ex_state = No_return ex_state"
  by (simp add: gc_realloc_def ex_state_def data_def sizeof_gc_object_t_def gc_align_100)

section \<open>Invariants of the reachable states\<close>

text \<open>C4: after any sequence of allocations and collections the free list is strictly
  ascending by block address, and no free block ends where a free block starts: no two
  entries are adjacent.\<close>

theorem gc_free_list_sorted_nonadjacent:
  "gc_reachable s \<Longrightarrow>
   sorted_wrt (\<lambda>b c. blk_at b < blk_at c) (free_list s) \<and>
   (\<forall>b \<in> set (free_list s). \<forall>c \<in> set (free_list s). blk_at b + blk_size b \<noteq> blk_at c)"
proof -
  assume "gc_reachable s"
  then have inv: "gc_invariant s" by (rule gc_reachable_invariant)
  show ?thesis
  proof (cases "initialized s")
    case False
    then show ?thesis using inv by (simp add: gc_invariant_def)
  next
    case True
    then have L: "gc_layout s" and sep: "fl_separated (free_list s)"
      using inv by (simp_all add: gc_invariant_def)
    have "\<forall>b \<in> set (free_list s). 0 < blk_size b"
      using gc_layoutD(4) [OF L] by (auto simp: blk_in_def sizeof_gc_free_block_t_def)
    with fl_separated_strict [OF sep] show ?thesis by blast
  qed
qed

theorem gc_free_list_sorted_nonadjacent_witness:
  "gc_reachable ex_state_b
   \<and> free_list ex_state_b = [\<lparr>blk_at = 65536, blk_size = 32\<rparr>, \<lparr>blk_at = 65600, blk_size = 1048512\<rparr>]
   \<and> sorted_wrt (\<lambda>b c. blk_at b < blk_at c) (free_list ex_state_b)
   \<and> blk_at (free_list ex_state_b ! 0) + blk_size (free_list ex_state_b ! 0)
        \<noteq> blk_at (free_list ex_state_b ! 1)"
proof -
  note inst = gc_free_list_sorted_nonadjacent [OF ex_state_b_reachable]
  have "free_list ex_state_b ! 0 \<in> set (free_list ex_state_b)"
    "free_list ex_state_b ! 1 \<in> set (free_list ex_state_b)"
    by (simp_all add: ex_state_b_def)
  with inst have "blk_at (free_list ex_state_b ! 0) + blk_size (free_list ex_state_b ! 0)
        \<noteq> blk_at (free_list ex_state_b ! 1)"
    by blast
  moreover have "sorted_wrt (\<lambda>b c. blk_at b < blk_at c) (free_list ex_state_b)"
    using inst by blast
  ultimately show ?thesis
    using ex_state_b_reachable by (simp add: ex_state_b_def)
qed

text \<open>C5: in every reachable state, and so after every \<^verbatim>\<open>gc_malloc\<close> and every \<^verbatim>\<open>gc_collect\<close>
  that returns, \<^verbatim>\<open>heap_used\<close> equals the sum of header size plus payload size over the
  objects in the registry.\<close>

theorem gc_heap_used_accounting:
  "gc_reachable s \<Longrightarrow>
   heap_used_accounted s \<and>
   heap_used_accounted (gc_collect env s) \<and>
   (\<forall>mm env1 env2 n calls p s'.
      mmap_ok mm \<longrightarrow> gc_malloc mm env1 env2 n s = (calls, Returns p s') \<longrightarrow>
      heap_used_accounted s')"
proof -
  assume "gc_reachable s"
  then have inv: "gc_invariant s" by (rule gc_reachable_invariant)
  have "heap_used_accounted s"
    using inv by (rule gc_invariant_accounted)
  moreover have "heap_used_accounted (gc_collect env s)"
    using gc_collect_invariant [OF inv] by (rule gc_invariant_accounted)
  moreover have "heap_used_accounted s'"
    if "mmap_ok mm" "gc_malloc mm env1 env2 n s = (calls, Returns p s')"
    for mm env1 env2 n calls p s'
    using gc_malloc_invariant [OF inv that] by (rule gc_invariant_accounted)
  ultimately show ?thesis by blast
qed

theorem gc_heap_used_accounting_witness:
  "gc_reachable ex_state_abc
   \<and> heap_used_accounted ex_state_abc
   \<and> gc_collect ex_env_b ex_state_abc = ex_state_b
   \<and> heap_used_accounted ex_state_b
   \<and> mmap_ok None
   \<and> gc_malloc None ex_env ex_env 8 ex_state
        = ([Call_gc_alloc_from_freelist 32 65568], Returns 65592
            (ex_state_abc\<lparr>objects := tl (objects ex_state_abc),
               free_list := [\<lparr>blk_at = 65600, blk_size = 1048512\<rparr>], heap_used := 64,
               allocation_count := 2\<rparr>))
   \<and> heap_used_accounted
        (ex_state_abc\<lparr>objects := tl (objects ex_state_abc),
               free_list := [\<lparr>blk_at = 65600, blk_size = 1048512\<rparr>], heap_used := 64,
               allocation_count := 2\<rparr>)"
proof -
  have ok: "mmap_ok None" by (simp add: mmap_ok_def)
  have c: "gc_collect ex_env_b ex_state_abc = ex_state_b"
    using ex_state_collect by (simp add: gc_force_collect_def)
  have "heap_used_accounted ex_state_abc" "heap_used_accounted (gc_collect ex_env_b ex_state_abc)"
    using gc_heap_used_accounting [OF ex_state_abc_reachable, of ex_env_b] by blast+
  moreover have "heap_used_accounted
        (ex_state_abc\<lparr>objects := tl (objects ex_state_abc),
               free_list := [\<lparr>blk_at = 65600, blk_size = 1048512\<rparr>], heap_used := 64,
               allocation_count := 2\<rparr>)"
    using gc_heap_used_accounting [OF ex_state_reachable, of ex_env] ok ex_state_malloc_2
    by blast
  ultimately show ?thesis
    using ok c ex_state_malloc_2 ex_state_abc_reachable by simp
qed

text \<open>C8: in a collection started in a reachable state, every span that \<^verbatim>\<open>gc_sweep\<close> hands
  to \<^verbatim>\<open>gc_add_to_freelist\<close> is the header size plus the payload size of an object of the
  registry, computed without wrap-around, and is no smaller than \<^verbatim>\<open>sizeof(gc_free_block_t)\<close>:
  \<^verbatim>\<open>gc_add_to_freelist\<close> always inserts it. No byte is lost: used and free bytes together
  are the same after the collection as before.\<close>

theorem gc_sweep_never_drops:
  assumes "gc_reachable s"
  shows "(\<forall>obj \<in> set (objects (gc_mark_roots env s)).
            (sizeof_gc_object_t + obj_size obj) mod SIZE_MAX_plus_1 = sizeof_gc_object_t + obj_size obj
          \<and> sizeof_gc_free_block_t \<le> sizeof_gc_object_t + obj_size obj
          \<and> (\<forall>s'. gc_add_to_freelist (obj_at obj)
                     ((sizeof_gc_object_t + obj_size obj) mod SIZE_MAX_plus_1) s'
                   = s'\<lparr>free_list := gc_add_to_freelist_loop (obj_block obj) (free_list s')\<rparr>))
       \<and> heap_used (gc_collect env s) + sum_list (map blk_size (free_list (gc_collect env s)))
           = heap_used s + sum_list (map blk_size (free_list s))"
proof (cases "initialized s")
  case False
  have inv: "gc_invariant s" using assms by (rule gc_reachable_invariant)
  then have "objects s = []" using False by (simp add: gc_invariant_def)
  then have "objects (gc_mark_roots env s) = []"
    using gc_mark_roots_objects_spans(1) [of env s] by simp
  then show ?thesis using False by (simp add: gc_collect_def)
next
  case True
  have inv: "gc_invariant s" using assms by (rule gc_reachable_invariant)
  let ?s1 = "gc_mark_roots env s"
  have L1: "gc_layout ?s1"
    using inv True by (simp add: gc_invariant_def gc_mark_roots_layout)
  note D = gc_layoutD [OF L1]
  have 1: "(sizeof_gc_object_t + obj_size obj) mod SIZE_MAX_plus_1 = sizeof_gc_object_t + obj_size obj"
    if "obj \<in> set (objects ?s1)" for obj
  proof -
    have "obj_in (heap ?s1) (heap ?s1 + heap_size ?s1) obj" using D(6) that by blast
    then have "sizeof_gc_object_t + obj_size obj < SIZE_MAX_plus_1"
      using D(1,3) by (simp add: obj_in_def obj_total_size_def)
    then show ?thesis by simp
  qed
  have 2: "sizeof_gc_free_block_t \<le> sizeof_gc_object_t + obj_size obj" for obj
    by (simp add: sizeof_gc_free_block_t_def sizeof_gc_object_t_def)
  have 3: "gc_add_to_freelist (obj_at obj) ((sizeof_gc_object_t + obj_size obj) mod SIZE_MAX_plus_1) s'
             = s'\<lparr>free_list := gc_add_to_freelist_loop (obj_block obj) (free_list s')\<rparr>"
    if "obj \<in> set (objects ?s1)" for obj s'
    using 1 [OF that] 2 [of obj] by (simp add: gc_add_to_freelist_def obj_block_def obj_total_size_def)
  have "heap_used (gc_sweep ?s1) + sum_list (map blk_size (free_list (gc_sweep ?s1)))
          = heap_used ?s1 + sum_list (map blk_size (free_list ?s1))"
    by (rule gc_sweep_layout(5) [OF L1])
  then have 4: "heap_used (gc_collect env s) + sum_list (map blk_size (free_list (gc_collect env s)))
           = heap_used s + sum_list (map blk_size (free_list s))"
    using True by (simp add: gc_collect_def Let_def gc_mark_roots_fields)
  show ?thesis using 1 2 3 4 by blast
qed

theorem gc_sweep_never_drops_witness:
  "gc_reachable ex_state_abc
   \<and> objects (gc_mark_roots ex_env_b ex_state_abc)
       = [\<lparr>obj_at = 65600, obj_size = 8, marked = False\<rparr>,
          \<lparr>obj_at = 65568, obj_size = 8, marked = True\<rparr>,
          \<lparr>obj_at = 65536, obj_size = 8, marked = False\<rparr>]
   \<and> (sizeof_gc_object_t + 8) mod SIZE_MAX_plus_1 = sizeof_gc_object_t + 8
   \<and> sizeof_gc_free_block_t \<le> sizeof_gc_object_t + 8
   \<and> gc_add_to_freelist 65536 ((sizeof_gc_object_t + 8) mod SIZE_MAX_plus_1) ex_state_b
       = ex_state_b\<lparr>free_list :=
            gc_add_to_freelist_loop (obj_block \<lparr>obj_at = 65536, obj_size = 8, marked = False\<rparr>)
              (free_list ex_state_b)\<rparr>
   \<and> heap_used (gc_collect ex_env_b ex_state_abc)
       + sum_list (map blk_size (free_list (gc_collect ex_env_b ex_state_abc)))
       = heap_used ex_state_abc + sum_list (map blk_size (free_list ex_state_abc))"
proof -
  have m: "objects (gc_mark_roots ex_env_b ex_state_abc)
       = [\<lparr>obj_at = 65600, obj_size = 8, marked = False\<rparr>,
          \<lparr>obj_at = 65568, obj_size = 8, marked = True\<rparr>,
          \<lparr>obj_at = 65536, obj_size = 8, marked = False\<rparr>]"
    by (simp add: gc_mark_roots_def gc_eval_defs ex_state_abc_def ex_env_b_def
      gc_is_valid_pointer_def gc_is_pointer_def gc_find_object_containing_def
      gc_mark_object.simps gc_mark_object_loop.simps set_marked_def)
  let ?obj = "\<lparr>obj_at = 65536, obj_size = 8, marked = False\<rparr>"
  note inst = gc_sweep_never_drops [OF ex_state_abc_reachable, of ex_env_b]
  have "?obj \<in> set (objects (gc_mark_roots ex_env_b ex_state_abc))"
    by (simp add: m)
  with inst have
    "(sizeof_gc_object_t + obj_size ?obj) mod SIZE_MAX_plus_1 = sizeof_gc_object_t + obj_size ?obj"
    "sizeof_gc_free_block_t \<le> sizeof_gc_object_t + obj_size ?obj"
    "gc_add_to_freelist (obj_at ?obj)
         ((sizeof_gc_object_t + obj_size ?obj) mod SIZE_MAX_plus_1) ex_state_b
       = ex_state_b\<lparr>free_list := gc_add_to_freelist_loop (obj_block ?obj) (free_list ex_state_b)\<rparr>"
    by blast+
  moreover have "heap_used (gc_collect ex_env_b ex_state_abc)
       + sum_list (map blk_size (free_list (gc_collect ex_env_b ex_state_abc)))
       = heap_used ex_state_abc + sum_list (map blk_size (free_list ex_state_abc))"
    using inst by blast
  ultimately show ?thesis
    using m ex_state_abc_reachable by simp
qed

section \<open>The allocation policy\<close>

text \<open>C3, as amended. On every call of \<^verbatim>\<open>gc_malloc\<close> that gets past initialisation, the calls
  made start with a collection exactly when \<^verbatim>\<open>heap_used\<close> plus the request's total span
  exceeds \<^verbatim>\<open>GC_THRESHOLD\<close> times the arena size, the span and the sum taken in \<^verbatim>\<open>size_t\<close>
  arithmetic; then comes the first acquisition, made in the state the collection left.
  When \<^verbatim>\<open>heap_used\<close>, header, request and alignment add up within \<^verbatim>\<open>size_t\<close>, nothing wraps:
  the span is the header size plus the request rounded up to the alignment unit.\<close>

theorem gc_malloc_collects_first:
  fixes n :: size_t and env1 env2 :: gc_env and s s0 :: gc_state
  assumes init: "(if \<not> initialized s then gc_init mm s else Some s) = Some s0"
  shows "(\<exists>p rest.
            fst (gc_malloc mm env1 env2 n s)
              = (if real (heap_size s0) * GC_THRESHOLD
                       < real ((heap_used s0 + gc_total_size n) mod SIZE_MAX_plus_1)
                 then [Call_gc_collect] else [])
                @ Call_gc_alloc_from_freelist (gc_total_size n) p # rest
          \<and> p = fst (gc_alloc_from_freelist (gc_total_size n)
                      (if real (heap_size s0) * GC_THRESHOLD
                            < real ((heap_used s0 + gc_total_size n) mod SIZE_MAX_plus_1)
                       then gc_collect env1 s0 else s0)))
       \<and> (heap_used s0 + sizeof_gc_object_t + n + GC_ALIGNMENT \<le> SIZE_MAX_plus_1 \<longrightarrow>
            gc_total_size n = sizeof_gc_object_t + rounded_up n \<and>
            (heap_used s0 + gc_total_size n) mod SIZE_MAX_plus_1
              = heap_used s0 + (sizeof_gc_object_t + rounded_up n))"
proof -
  let ?T = "gc_total_size n"
  let ?over = "real (heap_size s0) * GC_THRESHOLD < real ((heap_used s0 + ?T) mod SIZE_MAX_plus_1)"
  have over: "gc_over_threshold s0 ?T = ?over"
    by (simp add: gc_over_threshold_def)
  let ?s1 = "if ?over then gc_collect env1 s0 else s0"
  let ?pre = "if ?over then [Call_gc_collect] else []"
  let ?p = "fst (gc_alloc_from_freelist ?T ?s1)"
  have "\<exists>rest. fst (gc_malloc mm env1 env2 n s) = ?pre @ Call_gc_alloc_from_freelist ?T ?p # rest"
    unfolding gc_malloc_calls [OF init] over by (cases "?p = 0") simp_all
  then have 1: "\<exists>p rest. fst (gc_malloc mm env1 env2 n s) = ?pre @ Call_gc_alloc_from_freelist ?T p # rest
                  \<and> p = ?p"
    by blast
  have 2: "gc_total_size n = sizeof_gc_object_t + rounded_up n \<and>
        (heap_used s0 + gc_total_size n) mod SIZE_MAX_plus_1
              = heap_used s0 + (sizeof_gc_object_t + rounded_up n)"
    if nw: "heap_used s0 + sizeof_gc_object_t + n + GC_ALIGNMENT \<le> SIZE_MAX_plus_1"
  proof -
    have t: "gc_total_size n = sizeof_gc_object_t + rounded_up n"
      using nw by (intro gc_total_size_nowrap) simp
    have "heap_used s0 + (sizeof_gc_object_t + rounded_up n) < SIZE_MAX_plus_1"
      using rounded_up_bounds(2) [of n] nw by linarith
    then show ?thesis using t by simp
  qed
  show ?thesis using 1 2 by blast
qed

theorem gc_malloc_collects_first_witness:
  "(if \<not> initialized ex_state then gc_init None ex_state else Some ex_state) = Some ex_state
   \<and> heap_used ex_state + sizeof_gc_object_t + 900000 + GC_ALIGNMENT \<le> SIZE_MAX_plus_1
   \<and> real (heap_size ex_state) * GC_THRESHOLD
        < real ((heap_used ex_state + gc_total_size 900000) mod SIZE_MAX_plus_1)
   \<and> fst (gc_malloc None ex_env ex_env 900000 ex_state)
        = [Call_gc_collect, Call_gc_alloc_from_freelist 900024 65568]
   \<and> gc_total_size 900000 = sizeof_gc_object_t + rounded_up 900000
   \<and> (heap_used ex_state + gc_total_size 900000) mod SIZE_MAX_plus_1
        = heap_used ex_state + (sizeof_gc_object_t + rounded_up 900000)"
proof -
  have init: "(if \<not> initialized ex_state then gc_init None ex_state else Some ex_state) = Some ex_state"
    by (simp add: ex_state_def)
  have nw: "heap_used ex_state + sizeof_gc_object_t + 900000 + GC_ALIGNMENT \<le> SIZE_MAX_plus_1"
    by (simp add: ex_state_def sizeof_gc_object_t_def GC_ALIGNMENT_def SIZE_MAX_plus_1_def)
  have over: "real (heap_size ex_state) * GC_THRESHOLD
        < real ((heap_used ex_state + gc_total_size 900000) mod SIZE_MAX_plus_1)"
    by (simp add: ex_state_def GC_THRESHOLD_def gc_total_size_eval SIZE_MAX_plus_1_def)
  from gc_malloc_collects_first [OF init, where n = 900000 and ?env1.0 = ex_env and ?env2.0 = ex_env] nw
  have "gc_total_size 900000 = sizeof_gc_object_t + rounded_up 900000"
    "(heap_used ex_state + gc_total_size 900000) mod SIZE_MAX_plus_1
        = heap_used ex_state + (sizeof_gc_object_t + rounded_up 900000)"
    by blast+
  then show ?thesis
    using init nw over ex_state_grow by simp
qed

text \<open>C3 as stated fails where the sum wraps: with 32 bytes in use, a request of
  \<open>2 ^ 64 - 40\<close> bytes has a total span of \<open>2 ^ 64 - 16\<close>; usage plus span is far over the
  threshold, but the \<^verbatim>\<open>size_t\<close> sum is 16 and the first call is the acquisition.\<close>

theorem gc_malloc_collects_first_counterexample:
  "real (heap_size ex_state) * GC_THRESHOLD
     < real (heap_used ex_state + (sizeof_gc_object_t + rounded_up 18446744073709551576))
   \<and> fst (gc_malloc None ex_env ex_env 18446744073709551576 ex_state)
       = [Call_gc_alloc_from_freelist 18446744073709551600 0, Call_gc_collect,
          Call_gc_alloc_from_freelist 18446744073709551600 0]"
  by (simp add: ex_state_wrap rounded_up_eval)
    (simp add: ex_state_def GC_THRESHOLD_def sizeof_gc_object_t_def)

text \<open>C2, as amended. When the first acquisition fails, \<^verbatim>\<open>gc_malloc\<close> runs one more collection
  and one more acquisition and nothing else. When that fails too, the call returns the
  null pointer (the process goes on), no object has been added to the registry and the
  allocation counter has not moved; the registry and \<^verbatim>\<open>heap_used\<close> are the ones the last
  collection left, every object in the registry being one that was there at entry. When
  the call is made in a state the program can reach, \<^verbatim>\<open>heap_used\<close> on return still equals the
  sum of header plus payload size over the registry, and it is lower than at entry by
  exactly the bytes that the collections of the call have reclaimed: those of the
  collection before the first acquisition, when the request was over the threshold, and
  those of the collection before the retry. It is never higher than at entry.\<close>

theorem gc_malloc_out_of_memory:
  fixes n :: size_t and env1 env2 :: gc_env and s s0 :: gc_state
  assumes init: "(if \<not> initialized s then gc_init mm s else Some s) = Some s0"
  defines "s1 \<equiv> (if gc_over_threshold s0 (gc_total_size n) then gc_collect env1 s0 else s0)"
  defines "s3 \<equiv> gc_collect env2 (snd (gc_alloc_from_freelist (gc_total_size n) s1))"
  assumes fail: "fst (gc_alloc_from_freelist (gc_total_size n) s1) = 0"
  shows "fst (gc_malloc mm env1 env2 n s)
           = (if gc_over_threshold s0 (gc_total_size n) then [Call_gc_collect] else [])
             @ [Call_gc_alloc_from_freelist (gc_total_size n) 0, Call_gc_collect,
                Call_gc_alloc_from_freelist (gc_total_size n)
                  (fst (gc_alloc_from_freelist (gc_total_size n) s3))]
       \<and> (fst (gc_alloc_from_freelist (gc_total_size n) s3) = 0 \<longrightarrow>
            (\<exists>s'. snd (gc_malloc mm env1 env2 n s) = Returns 0 s'
                \<and> objects s' = objects s3 \<and> heap_used s' = heap_used s3
                \<and> allocation_count s' = allocation_count s0
                \<and> set (objects s') \<subseteq> (\<lambda>obj. obj\<lparr>marked := False\<rparr>) ` set (objects s0) \<union> set (objects s0)
                \<and> length (objects s') \<le> length (objects s0)
                \<and> (gc_reachable s \<longrightarrow>
                     heap_used_accounted s'
                     \<and> heap_used s'
                         + ((if gc_over_threshold s0 (gc_total_size n)
                             then gc_reclaimed env1 s0 else 0)
                            + gc_reclaimed env2 (snd (gc_alloc_from_freelist (gc_total_size n) s1)))
                         = heap_used s
                     \<and> heap_used s' \<le> heap_used s)))"
proof -
  let ?T = "gc_total_size n"
  let ?clr = "\<lambda>obj::gc_object. obj\<lparr>marked := False\<rparr>"
  note calls = gc_malloc_calls [OF init, where n = n and ?env1.0 = env1 and ?env2.0 = env2, folded s1_def, folded s3_def]
  have 1: "fst (gc_malloc mm env1 env2 n s)
           = (if gc_over_threshold s0 ?T then [Call_gc_collect] else [])
             @ [Call_gc_alloc_from_freelist ?T 0, Call_gc_collect,
                Call_gc_alloc_from_freelist ?T (fst (gc_alloc_from_freelist ?T s3))]"
    unfolding calls using fail by simp
  have 2: "\<exists>s'. snd (gc_malloc mm env1 env2 n s) = Returns 0 s'
                \<and> objects s' = objects s3 \<and> heap_used s' = heap_used s3
                \<and> allocation_count s' = allocation_count s0
                \<and> set (objects s') \<subseteq> ?clr ` set (objects s0) \<union> set (objects s0)
                \<and> length (objects s') \<le> length (objects s0)
                \<and> (gc_reachable s \<longrightarrow>
                     heap_used_accounted s'
                     \<and> heap_used s'
                         + ((if gc_over_threshold s0 ?T then gc_reclaimed env1 s0 else 0)
                            + gc_reclaimed env2 (snd (gc_alloc_from_freelist ?T s1)))
                         = heap_used s
                     \<and> heap_used s' \<le> heap_used s)"
    if fail2: "fst (gc_alloc_from_freelist ?T s3) = 0"
  proof -
    let ?s2 = "snd (gc_alloc_from_freelist ?T s1)"
    let ?s4 = "snd (gc_alloc_from_freelist ?T s3)"
    obtain fl2 where s2: "?s2 = s1\<lparr>free_list := fl2\<rparr>"
      using gc_alloc_from_freelist_frame [of ?T s1] by (metis prod.collapse)
    obtain fl4 where s4: "?s4 = s3\<lparr>free_list := fl4\<rparr>"
      using gc_alloc_from_freelist_frame [of ?T s3] by (metis prod.collapse)
    have out: "snd (gc_malloc mm env1 env2 n s) = Returns 0 ?s4"
      unfolding calls using fail fail2 by simp
    have a1: "allocation_count s1 = allocation_count s0"
      by (simp add: s1_def gc_collect_frame(1))
    have a3: "allocation_count s3 = allocation_count s0"
      unfolding s3_def gc_collect_frame(1) s2 using a1 by simp
    have o1: "set (objects s1) \<subseteq> ?clr ` set (objects s0) \<union> set (objects s0)"
      using gc_collect_frame(2) [of env1 s0] by (auto simp: s1_def)
    have "set (objects s3) \<subseteq> ?clr ` set (objects s1) \<union> set (objects s1)"
      unfolding s3_def using gc_collect_frame(2) [of env2 ?s2] by (simp add: s2)
    also have "\<dots> \<subseteq> ?clr ` (?clr ` set (objects s0) \<union> set (objects s0))
                    \<union> (?clr ` set (objects s0) \<union> set (objects s0))"
      using o1 by blast
    also have "\<dots> = ?clr ` set (objects s0) \<union> set (objects s0)"
      by (rule clear_marked_idem)
    finally have o3: "set (objects s3) \<subseteq> ?clr ` set (objects s0) \<union> set (objects s0)" .
    have l1: "length (objects s1) \<le> length (objects s0)"
      using gc_collect_frame(3) [of env1 s0] by (simp add: s1_def)
    have "length (objects s3) \<le> length (objects s1)"
      unfolding s3_def using gc_collect_frame(3) [of env2 ?s2] by (simp add: s2)
    with l1 have l3: "length (objects s3) \<le> length (objects s0)" by linarith
    have acc: "heap_used_accounted ?s4
               \<and> heap_used ?s4
                   + ((if gc_over_threshold s0 ?T then gc_reclaimed env1 s0 else 0)
                      + gc_reclaimed env2 ?s2)
                   = heap_used s
               \<and> heap_used ?s4 \<le> heap_used s"
      if reach: "gc_reachable s"
    proof -
      let ?R1 = "if gc_over_threshold s0 ?T then gc_reclaimed env1 s0 else 0"
      note E = gc_malloc_entry_accounted [OF reach init]
      have i0: "initialized s0" and c0: "heap_used_accounted s0"
        and b0: "heap_used s0 < SIZE_MAX_plus_1" and h0: "heap_used s0 = heap_used s"
        using E by simp_all
      have i1: "initialized s1"
        using i0 by (simp add: s1_def gc_collect_initialized)
      have c1: "heap_used_accounted s1"
        using c0 gc_collect_heap_used(2) [OF i0 c0 b0] by (simp add: s1_def)
      have h1: "heap_used s1 + ?R1 = heap_used s0"
        using gc_collect_heap_used(1) [OF i0 c0 b0, of env1] by (simp add: s1_def)
      have i2: "initialized ?s2" by (subst s2) (simp add: i1)
      have c2: "heap_used_accounted ?s2"
        using c1 by (subst s2) (simp add: heap_used_accounted_def)
      have h2: "heap_used ?s2 = heap_used s1" by (subst s2) simp
      have b2: "heap_used ?s2 < SIZE_MAX_plus_1" using h1 h2 b0 by linarith
      have c3: "heap_used_accounted s3"
        unfolding s3_def by (rule gc_collect_heap_used(2) [OF i2 c2 b2])
      have h3: "heap_used s3 + gc_reclaimed env2 ?s2 = heap_used ?s2"
        unfolding s3_def by (rule gc_collect_heap_used(1) [OF i2 c2 b2])
      have c4: "heap_used_accounted ?s4"
        using c3 by (subst s4) (simp add: heap_used_accounted_def)
      have h4: "heap_used ?s4 = heap_used s3" by (subst s4) simp
      show ?thesis using c4 h4 h3 h2 h1 h0 by linarith
    qed
    have "objects ?s4 = objects s3" "heap_used ?s4 = heap_used s3"
      "allocation_count ?s4 = allocation_count s0"
      "set (objects ?s4) \<subseteq> ?clr ` set (objects s0) \<union> set (objects s0)"
      "length (objects ?s4) \<le> length (objects s0)"
      using a3 o3 l3 by (simp_all add: s4)
    then show ?thesis
      using out acc by blast
  qed
  show ?thesis using 1 2 by blast
qed

theorem gc_malloc_out_of_memory_witness:
  "gc_reachable ex_state
   \<and> heap_used ex_state = 32 \<and> gc_reclaimed ex_env_b ex_state = 32
   \<and> (if \<not> initialized ex_state then gc_init None ex_state else Some ex_state) = Some ex_state
   \<and> fst (gc_alloc_from_freelist (gc_total_size 1048576)
          (if gc_over_threshold ex_state (gc_total_size 1048576)
           then gc_collect ex_env_b ex_state else ex_state)) = 0
   \<and> fst (gc_malloc None ex_env_b ex_env_b 1048576 ex_state)
       = [Call_gc_collect, Call_gc_alloc_from_freelist 1048600 0, Call_gc_collect,
          Call_gc_alloc_from_freelist 1048600 0]
   \<and> snd (gc_malloc None ex_env_b ex_env_b 1048576 ex_state)
       = Returns 0
          (ex_state\<lparr>heap_used := 0, objects := [],
             free_list := [\<lparr>blk_at = 65536, blk_size = 1048576\<rparr>],
             stack_top := 140737488347000, registers := [1048576],
             collection_count := 2\<rparr>)"
proof -
  have init: "(if \<not> initialized ex_state then gc_init None ex_state else Some ex_state) = Some ex_state"
    by (simp add: ex_state_def)
  have fail: "fst (gc_alloc_from_freelist (gc_total_size 1048576)
          (if gc_over_threshold ex_state (gc_total_size 1048576)
           then gc_collect ex_env_b ex_state else ex_state)) = 0"
    by (simp add: gc_total_size_eval gc_eval_defs gc_collect_eval_defs ex_env_b_def ex_state_def)
  have "fst (gc_malloc None ex_env_b ex_env_b 1048576 ex_state)
       = (if gc_over_threshold ex_state (gc_total_size 1048576) then [Call_gc_collect] else [])
             @ [Call_gc_alloc_from_freelist (gc_total_size 1048576) 0, Call_gc_collect,
                Call_gc_alloc_from_freelist (gc_total_size 1048576)
                  (fst (gc_alloc_from_freelist (gc_total_size 1048576)
                     (gc_collect ex_env_b (snd (gc_alloc_from_freelist (gc_total_size 1048576)
                        (if gc_over_threshold ex_state (gc_total_size 1048576)
                         then gc_collect ex_env_b ex_state else ex_state))))))]"
    using gc_malloc_out_of_memory [OF init fail, where ?env2.0 = ex_env_b] by blast
  moreover have "heap_used ex_state = 32" by (simp add: ex_state_def)
  moreover have "gc_reclaimed ex_env_b ex_state = 32"
    by (simp add: gc_reclaimed_def unmarked_def obj_total_size_def gc_eval_defs
        gc_collect_eval_defs ex_env_b_def ex_state_def)
  ultimately show ?thesis
    using init fail ex_state_reachable by (simp add: ex_state_oom)
qed

text \<open>C2 as stated fails where a collection inside the failing call reclaims something: in
  \<open>ex_state\<close> with no root for its object, a request of the whole arena size fails after
  the object has been swept, and \<^verbatim>\<open>heap_used\<close> has gone from 32 to 0.\<close>

theorem gc_malloc_out_of_memory_counterexample:
  "heap_used ex_state = 32
   \<and> objects ex_state = [\<lparr>obj_at = 65536, obj_size = 8, marked = False\<rparr>]
   \<and> (\<exists>s'. snd (gc_malloc None ex_env_b ex_env_b 1048576 ex_state) = Returns 0 s'
          \<and> heap_used s' = 0 \<and> objects s' = [])"
  by (simp add: ex_state_oom) (simp add: ex_state_def)

text \<open>C9, as amended. In a reachable state with a free block of at least the header size,
  \<^verbatim>\<open>gc_malloc(0)\<close> succeeds at the first acquisition: it returns a pointer that is not null,
  links an object of payload size 0 with a clear mark flag at the head of the registry,
  and leaves \<^verbatim>\<open>heap_used\<close> exactly the header size above its value before the acquisition,
  that is after the collection that runs first when usage plus header is over the
  threshold, and above its value at entry when it is not.\<close>

theorem gc_malloc_zero:
  fixes env1 env2 :: gc_env and s :: gc_state
  assumes reach: "gc_reachable s"
    and blk: "\<exists>b \<in> set (free_list s). sizeof_gc_object_t \<le> blk_size b"
  defines "s1 \<equiv> (if gc_over_threshold s sizeof_gc_object_t then gc_collect env1 s else s)"
  shows "\<exists>p s'.
           gc_malloc mm env1 env2 0 s
             = ((if gc_over_threshold s sizeof_gc_object_t then [Call_gc_collect] else [])
                  @ [Call_gc_alloc_from_freelist sizeof_gc_object_t (p - sizeof_gc_object_t)],
                Returns p s')
         \<and> sizeof_gc_object_t < p
         \<and> objects s' = \<lparr>obj_at = p - sizeof_gc_object_t, obj_size = 0, marked = False\<rparr> # objects s1
         \<and> heap_used s' = heap_used s1 + sizeof_gc_object_t"
proof -
  have inv: "gc_invariant s" using reach by (rule gc_reachable_invariant)
  have ini: "initialized s"
    using inv blk by (cases "initialized s") (auto simp: gc_invariant_def)
  have T: "gc_total_size 0 = sizeof_gc_object_t" "gc_align 0 = 0"
    by (simp_all add: gc_total_size_def gc_align_def GC_ALIGNMENT_def SIZE_MAX_plus_1_def
        sizeof_gc_object_t_def)
  have init: "(if \<not> initialized s then gc_init mm s else Some s) = Some s" using ini by simp
  have i1: "gc_invariant s1" "initialized s1"
    using inv ini by (simp_all add: s1_def gc_collect_invariant gc_collect_initialized)
  note L1 = i1(1) [unfolded gc_invariant_def]
  have lay1: "gc_layout s1" and sep1: "fl_separated (free_list s1)"
    and um1: "\<forall>obj \<in> set (objects s1). \<not> marked obj"
    using L1 i1(2) by simp_all
  obtain b where b: "b \<in> set (free_list s)" "sizeof_gc_object_t \<le> blk_size b"
    using blk by blast
  have "\<exists>c \<in> set (free_list s1). blk_size b \<le> blk_size c"
    using gc_collect_keeps_large_block [OF inv ini b(1), of env1] b(1) by (auto simp: s1_def)
  then obtain c where c: "c \<in> set (free_list s1)" "sizeof_gc_object_t \<le> blk_size c"
    using b(2) by (meson le_trans)
  have pos: "\<forall>b \<in> set (free_list s1). 0 < blk_at b"
    using blk_size_le_heap_size(2) [OF lay1] by blast
  obtain q s2 where a: "gc_alloc_from_freelist sizeof_gc_object_t s1 = (q, s2)" by fastforce
  have "fst (gc_alloc_loop sizeof_gc_object_t (free_list s1)) \<noteq> 0"
    using c pos by (rule gc_alloc_loop_finds)
  then have q: "q \<noteq> 0"
    using a by (auto simp: gc_alloc_from_freelist_def split: prod.splits)
  obtain p s' where r: "gc_malloc_init_object q 0 sizeof_gc_object_t s2 = Returns p s'"
    by (simp add: gc_malloc_init_object_def Let_def)
  note R = gc_malloc_init_object_invariant [OF i1(2) lay1 sep1 um1 a q r]
  have "gc_malloc mm env1 env2 0 s
             = ((if gc_over_threshold s sizeof_gc_object_t then [Call_gc_collect] else [])
                  @ [Call_gc_alloc_from_freelist sizeof_gc_object_t q], Returns p s')"
    unfolding gc_malloc_calls [OF init, where n = 0 and ?env1.0 = env1 and ?env2.0 = env2] T
    using a q r by (simp add: s1_def)
  moreover have "q = p - sizeof_gc_object_t" "sizeof_gc_object_t < p"
    using R(3) q by simp_all
  ultimately show ?thesis
    using R(4,5) by auto
qed

theorem gc_malloc_zero_witness:
  "gc_reachable ex_state_b
   \<and> (\<exists>b \<in> set (free_list ex_state_b). sizeof_gc_object_t \<le> blk_size b)
   \<and> \<not> gc_over_threshold ex_state_b sizeof_gc_object_t
   \<and> (\<exists>p s'. gc_malloc None ex_env ex_env 0 ex_state_b
                 = ([Call_gc_alloc_from_freelist sizeof_gc_object_t (p - sizeof_gc_object_t)],
                    Returns p s')
        \<and> p = 65560
        \<and> objects s' = \<lparr>obj_at = 65536, obj_size = 0, marked = False\<rparr> # objects ex_state_b
        \<and> heap_used s' = heap_used ex_state_b + sizeof_gc_object_t)"
proof -
  have blk: "\<exists>b \<in> set (free_list ex_state_b). sizeof_gc_object_t \<le> blk_size b"
    by (simp add: ex_state_b_def sizeof_gc_object_t_def)
  have no: "\<not> gc_over_threshold ex_state_b sizeof_gc_object_t"
    by (simp add: gc_over_threshold_iff ex_state_b_def sizeof_gc_object_t_def SIZE_MAX_plus_1_def)
  from gc_malloc_zero [OF ex_state_b_reachable blk, of None ex_env ex_env] no
  obtain p s' where r: "gc_malloc None ex_env ex_env 0 ex_state_b
                 = ([Call_gc_alloc_from_freelist sizeof_gc_object_t (p - sizeof_gc_object_t)],
                    Returns p s')"
    and o: "objects s' = \<lparr>obj_at = p - sizeof_gc_object_t, obj_size = 0, marked = False\<rparr> # objects ex_state_b"
    and h: "heap_used s' = heap_used ex_state_b + sizeof_gc_object_t"
    by auto
  have p: "p = 65560" using r by (simp add: ex_state_b_malloc_0)
  have "objects s' = \<lparr>obj_at = 65536, obj_size = 0, marked = False\<rparr> # objects ex_state_b"
    using o p by (simp add: sizeof_gc_object_t_def)
  with r p h have "\<exists>p s'. gc_malloc None ex_env ex_env 0 ex_state_b
                 = ([Call_gc_alloc_from_freelist sizeof_gc_object_t (p - sizeof_gc_object_t)],
                    Returns p s')
        \<and> p = 65560
        \<and> objects s' = \<lparr>obj_at = 65536, obj_size = 0, marked = False\<rparr> # objects ex_state_b
        \<and> heap_used s' = heap_used ex_state_b + sizeof_gc_object_t"
    by blast
  then show ?thesis
    using ex_state_b_reachable blk no by blast
qed

text \<open>C9 as stated fails where the collection before the acquisition reclaims something:
  \<open>ex_state_big\<close> holds one object without a root and 900024 bytes in use, and after
  \<^verbatim>\<open>gc_malloc(0)\<close> the bytes in use are 24.\<close>

theorem gc_malloc_zero_counterexample:
  "gc_reachable ex_state_big
   \<and> (\<exists>b \<in> set (free_list ex_state_big). sizeof_gc_object_t \<le> blk_size b)
   \<and> heap_used ex_state_big = 900024
   \<and> (\<exists>s'. snd (gc_malloc None ex_env_none ex_env_none 0 ex_state_big) = Returns 65560 s'
          \<and> heap_used s' = 24)"
  using ex_state_big_reachable
  by (simp add: ex_state_big_malloc_0) (simp add: ex_state_big_def sizeof_gc_object_t_def)

section \<open>Marking\<close>

text \<open>C6, as amended. \<^verbatim>\<open>gc_mark_object\<close> terminates for every candidate address and every
  state, whatever the references between the payloads, cycles included: every call is in
  the domain of the recursion, since a call that goes on sets a flag that was clear. When on
  entry no marked object refers to an unmarked one, which holds in particular when no flag
  is set, then on return every object conservatively reachable from the candidate address
  is marked, and again no marked object refers to an unmarked one.\<close>

theorem gc_mark_object_reaches:
  "gc_mark_object_gc_mark_object_loop_dom (Inl (ptr, s)) \<and>
   (marks_closed s \<longrightarrow>
      marks_closed (gc_mark_object ptr s) \<and>
      (\<forall>k. gc_reaches s ptr k \<longrightarrow> marked (objects (gc_mark_object ptr s) ! k)))"
proof (intro conjI impI allI)
  show "gc_mark_object_gc_mark_object_loop_dom (Inl (ptr, s))"
    by (rule gc_mark_dom_total)
next
  assume "marks_closed s"
  moreover have "mark_extends s (gc_mark_object ptr s)"
    using gc_mark_extends(1) [of s ptr] by blast
  ultimately show "marks_closed (gc_mark_object ptr s)"
    by (rule mark_extends_closed [rotated])
next
  fix k
  assume "marks_closed s" "gc_reaches s ptr k"
  then show "marked (objects (gc_mark_object ptr s) ! k)"
    by (rule gc_mark_closed_reaches [rotated])
qed

text \<open>In \<open>ex_graph\<close>, where no flag is set and the references form a cycle, the third
  allocation is reachable from 65656 through the second payload word of the newest object;
  the marking from 65656 marks it, along with the two objects of the cycle, and leaves the
  first allocation unmarked.\<close>

theorem gc_mark_object_reaches_witness:
  "gc_reachable ex_graph \<and> marks_closed ex_graph \<and> gc_reaches ex_graph 65656 1 \<and>
   marked (objects (gc_mark_object 65656 ex_graph) ! 1) \<and>
   marks_closed (gc_mark_object 65656 ex_graph) \<and>
   gc_mark_object 65656 ex_graph = ex_graph\<lparr>objects :=
     [\<lparr>obj_at = 65632, obj_size = 16, marked = True\<rparr>,
      \<lparr>obj_at = 65600, obj_size = 8, marked = True\<rparr>,
      \<lparr>obj_at = 65568, obj_size = 8, marked = True\<rparr>,
      \<lparr>obj_at = 65536, obj_size = 8, marked = False\<rparr>]\<rparr>"
proof -
  have c: "marks_closed ex_graph"
    by (rule marks_closed_unmarked) (simp add: ex_graph_def)
  show ?thesis
    using gc_mark_object_reaches [of 65656 ex_graph] c ex_graph_reaches ex_graph_reachable
      ex_graph_mark
    by blast
qed

text \<open>C6 as stated fails for the calls inside a traversal. The marking from 65656 in
  \<open>ex_graph\<close> sets the flag of the newest object, follows its first payload word to the
  second allocation, sets that flag, and calls \<^verbatim>\<open>gc_mark_object\<close> on the payload word of
  the second allocation, which is 65656 again: the state is \<open>ex_graph_mid\<close>. The call
  returns at once, the flag of the object of 65656 being set, and the third allocation,
  reachable from 65656, is not marked when it returns.\<close>

theorem gc_mark_object_reaches_counterexample:
  "ex_graph_mid = set_marked 2 (set_marked 0 ex_graph) \<and>
   gc_mark_object 65656 ex_graph
     = gc_mark_object_loop 65656 1 2
         (gc_mark_object_loop 65592 1 1 (gc_mark_object 65656 ex_graph_mid)) \<and>
   gc_reaches ex_graph_mid 65656 1 \<and>
   gc_mark_object 65656 ex_graph_mid = ex_graph_mid \<and>
   \<not> marked (objects (gc_mark_object 65656 ex_graph_mid) ! 1)"
proof -
  have "\<not> marked (objects (gc_mark_object 65656 ex_graph_mid) ! 1)"
    unfolding ex_graph_mid_mark by (simp add: ex_graph_mid_def)
  then show ?thesis
    using ex_graph_mid_nested ex_graph_mid_reaches ex_graph_mid_mark by blast
qed

end
